theory Spec2Isabelle
  imports Complex_Main "HOL-Library.Word" "HOL-Library.Signed_Division" "HOL-Library.Monad_Syntax"
begin

unbundle bit_operations_syntax

section \<open>Integer helpers of QCS.cpp\<close>

text \<open>
  The C++ type \<open>ll\<close> is a 64-bit signed integer.  It is modelled by \<open>int\<close>; the operators
  \<open>/\<close> and \<open>%\<close> of C++ truncate towards zero and are \<open>sdiv\<close> and \<open>smod\<close>.  A call that
  does not return a value (an endless loop, a trap on a division by zero, an access outside a
  vector) is the value \<open>None\<close>.

  \<open>power\<close>: the product \<open>(__int128)x*x\<close> of two 64-bit values is below \<open>2 ^ 126\<close> and does not
  overflow, and its remainder fits \<open>ll\<close> again, so no wrap-around can occur.  The shift
  \<open>b >>= 1\<close> is arithmetic, which is \<open>b div 2\<close> on \<open>int\<close>; \<open>b & 1\<close> is the parity of \<open>b\<close> in
  two's complement.  For negative \<open>b\<close> the loop never ends.
\<close>

partial_function (option) power_loop :: "int \<Rightarrow> int \<Rightarrow> int \<Rightarrow> int \<Rightarrow> int option" where
  "power_loop res x b n =
     (if b = 0 then Some res
      else if n = 0 then None
      else power_loop (if odd b then (x * x) smod n else res) ((x * x) smod n) (b div 2) n)"

definition power_ll :: "int \<Rightarrow> int \<Rightarrow> int \<Rightarrow> int option" where
  "power_ll x b n = power_loop 1 x b n"

text \<open>
  \<open>std::__gcd(m, n)\<close> of the C++ library is the Euclidean loop
  \<open>while (n != 0) { t = m % n; m = n; n = t; } return m;\<close>.
\<close>

function gcd_ll :: "int \<Rightarrow> int \<Rightarrow> int" where
  "gcd_ll m n = (if n = 0 then m else gcd_ll n (m smod n))"
  by pat_completeness auto
termination
proof (relation "measure (\<lambda>(m, n). nat \<bar>n\<bar>)")
  show "wf (measure (\<lambda>(m, n). nat \<bar>n\<bar>))" by simp
next
  fix m n :: int
  assume "n \<noteq> 0"
  moreover from \<open>n \<noteq> 0\<close> have "\<bar>m smod n\<bar> < \<bar>n\<bar>"
    by (simp add: signed_modulo_int_def abs_mult abs_sgn_eq)
  ultimately show "((n, m smod n), (m, n)) \<in> measure (\<lambda>(m, n). nat \<bar>n\<bar>)"
    by simp
qed

declare gcd_ll.simps [simp del]

section \<open>The state vector\<close>

text \<open>
  \<open>complex<double>\<close> is modelled by \<open>complex\<close> and \<open>double\<close> by \<open>real\<close>: the arithmetic of
  the model is exact.  \<open>std::norm\<close> is the squared magnitude.  A \<open>vector\<close> is a list; an access
  \<open>v[i]\<close> outside the vector has no defined result, which \<open>get_at\<close>, \<open>set_at\<close> and \<open>add_at\<close>
  turn into \<open>None\<close>.  The fields \<open>n\<close> and \<open>a\<close> of \<open>struct Qubits\<close> are \<open>qn\<close> and \<open>qa\<close>.
  Indices and shift counts of type \<open>int\<close> are natural numbers below \<open>2 ^ 31\<close> in every state
  the constructor accepts, so \<open>1 << n\<close> is \<open>2 ^ n\<close>.
\<close>

type_synonym vec = "complex list"
type_synonym Matrix = "complex list list"

definition X :: Matrix where
  "X = [[0, 1], [1, 0]]"

definition H :: Matrix where
  "H = [[complex_of_real (1 / sqrt 2), complex_of_real (1 / sqrt 2)],
        [complex_of_real (1 / sqrt 2), complex_of_real (- 1 / sqrt 2)]]"

record Qubits =
  qn :: nat
  qa :: vec

definition get_at :: "'x list \<Rightarrow> nat \<Rightarrow> 'x option" where
  "get_at xs i = (if i < length xs then Some (xs ! i) else None)"

definition set_at :: "nat \<Rightarrow> 'x \<Rightarrow> 'x list \<Rightarrow> 'x list option" where
  "set_at i z b = (if i < length b then Some (b[i := z]) else None)"

definition add_at :: "nat \<Rightarrow> complex \<Rightarrow> vec \<Rightarrow> vec option" where
  "add_at i z b = (if i < length b then Some (b[i := b ! i + z]) else None)"

text \<open>An index of type \<open>ll\<close>: a negative one is beyond every vector once converted to \<open>size_t\<close>.\<close>

definition add_at_ll :: "int \<Rightarrow> complex \<Rightarrow> vec \<Rightarrow> vec option" where
  "add_at_ll i z b = (if 0 \<le> i then add_at (nat i) z b else None)"

text \<open>A counted \<open>for\<close> loop over the listed values of its variable, stopping at an undefined step.\<close>

primrec for_each :: "'i list \<Rightarrow> ('i \<Rightarrow> 's \<Rightarrow> 's option) \<Rightarrow> 's \<Rightarrow> 's option" where
  "for_each [] f b = Some b"
| "for_each (i # is) f b = (case f i b of None \<Rightarrow> None | Some b' \<Rightarrow> for_each is f b')"

definition normsq :: "vec \<Rightarrow> real" where
  "normsq v = (\<Sum>z\<leftarrow>v. (cmod z)\<^sup>2)"

text \<open>
  The constructor: \<open>1 << m\<close> is negative or undefined from \<open>m = 31\<close> on, and \<open>resize\<close> then
  throws.
\<close>

definition Qubits_new :: "nat \<Rightarrow> Qubits option" where
  "Qubits_new m =
     (if m < 31 then Some \<lparr>qn = m, qa = (replicate (2 ^ m) 0)[0 := 1]\<rparr> else None)"

definition apply_gate :: "Matrix \<Rightarrow> nat \<Rightarrow> Qubits \<Rightarrow> Qubits option" where
  "apply_gate T p st =
     (let S = 2 ^ qn st - 1 in
      case for_each [0..<S + 1]
             (\<lambda>s b.
                let c = drop_bit p s AND 1 in
                for_each [0..<2]
                  (\<lambda>d b.
                     case get_at T d of None \<Rightarrow> None
                     | Some row \<Rightarrow>
                         (case get_at row c of None \<Rightarrow> None
                          | Some t \<Rightarrow>
                              (case get_at (qa st) s of None \<Rightarrow> None
                               | Some x \<Rightarrow> add_at (s XOR push_bit p (c XOR d)) (t * x) b)))
                  b)
             (replicate (S + 1) 0)
      of None \<Rightarrow> None
      | Some b \<Rightarrow> Some (st\<lparr>qa := b\<rparr>))"

text \<open>
  \<open>measure(p)\<close>.  The draw \<open>dist(rnd)\<close> is the argument \<open>u\<close>.  The function has no exit other than
  \<open>return d\<close>; a division of a \<open>double\<close> by \<open>0.0\<close> does not trap.  When \<open>coef\<close> is \<open>0\<close> the
  quotients \<open>a[s]/coef\<close> of the code are not numbers; the quotient \<open>x / 0\<close> of the model is \<open>0\<close>.
  The value of such a quotient is used nowhere below: where a statement speaks of the state
  after a measurement, either \<open>coef\<close> is shown to be positive or the quotient is left as it
  stands.  The same holds for the division by \<open>pr\<close> in \<open>QFT\<close>.
\<close>

definition measure_qubit :: "nat \<Rightarrow> real \<Rightarrow> Qubits \<Rightarrow> (nat \<times> Qubits) option" where
  "measure_qubit p u st =
     (let S = 2 ^ qn st - 1 in
      case for_each [0..<S + 1]
             (\<lambda>s (p0, p1).
                case get_at (qa st) s of None \<Rightarrow> None
                | Some x \<Rightarrow>
                    Some (if drop_bit p s AND 1 = 1 then (p0, p1 + (cmod x)\<^sup>2)
                          else (p0 + (cmod x)\<^sup>2, p1)))
             (0, 0)
      of None \<Rightarrow> None
      | Some (p0, p1) \<Rightarrow>
          (let d = (if u < p1 then 1 else 0 :: nat);
               coef = sqrt (if d = 1 then p1 else p0)
           in case for_each [0..<S + 1]
                     (\<lambda>s b.
                        let c = drop_bit p s AND 1 in
                        if c XOR d \<noteq> 0 then set_at s 0 b
                        else (case get_at (qa st) s of None \<Rightarrow> None
                              | Some x \<Rightarrow> set_at s (x / complex_of_real coef) b))
                     (replicate (S + 1) 0)
              of None \<Rightarrow> None
              | Some b \<Rightarrow> Some (d, st\<lparr>qa := b\<rparr>)))"

text \<open>
  \<open>mul\<close>.  The transform of the second register is \<open>mul_transform\<close>; \<open>v\<close> is not negative, so
  neither is \<open>w\<close>.
\<close>

definition mul_transform :: "int \<Rightarrow> int \<Rightarrow> int \<Rightarrow> int" where
  "mul_transform v N value = (value * v) smod N"

definition mul :: "Qubits \<Rightarrow> nat \<Rightarrow> int \<Rightarrow> int \<Rightarrow> Qubits option" where
  "mul st con a N =
     (case power_ll a (2 ^ con) N of None \<Rightarrow> None
      | Some v \<Rightarrow>
          (let n = qn st div 3; m = n * 2; S = 2 ^ (n * 3) - 1 in
           case for_each [0..<S + 1]
                  (\<lambda>s b.
                     if drop_bit con s AND 1 = 0
                     then (case get_at (qa st) s of None \<Rightarrow> None | Some x \<Rightarrow> add_at s x b)
                     else if N = 0 then None
                     else (let w = mul_transform v N (int (drop_bit m s)) in
                           case get_at (qa st) s of None \<Rightarrow> None
                           | Some x \<Rightarrow>
                               add_at_ll (push_bit m w OR int (s AND (2 ^ m - 1))) x b))
                  (replicate (S + 1) 0)
           of None \<Rightarrow> None
           | Some b \<Rightarrow> Some (st\<lparr>qa := b\<rparr>)))"

section \<open>Global arrays, the random engine and the Fourier transform\<close>

text \<open>
  The global arrays \<open>rev\<close> and \<open>buf\<close> of QCS.cpp (both of \<open>maxs\<close> entries) and the engine
  \<open>rnd\<close> are state shared by all calls; they are passed along as a record.  An array is the
  function from its indices to their contents, with the bound checked at each access.  The
  entries of \<open>rev\<close> are the values the program stores there, which are never negative.  The
  engine is the sequence of the 64-bit values it is still to produce; \<open>dist(rnd)\<close> consumes
  one of them and scales it to \<open>[0, 1)\<close>.
\<close>

definition maxs :: nat where
  "maxs = 2 ^ 21 + 5"

record globals =
  rev_g :: "nat \<Rightarrow> nat"
  buf_g :: "nat \<Rightarrow> complex"
  rnd_g :: "nat \<Rightarrow> 64 word"

definition arr_get :: "nat \<Rightarrow> (nat \<Rightarrow> 'x) \<Rightarrow> nat \<Rightarrow> 'x option" where
  "arr_get bound arr i = (if i < bound then Some (arr i) else None)"

definition arr_set :: "nat \<Rightarrow> nat \<Rightarrow> 'x \<Rightarrow> (nat \<Rightarrow> 'x) \<Rightarrow> (nat \<Rightarrow> 'x) option" where
  "arr_set bound i z arr = (if i < bound then Some (arr(i := z)) else None)"

text \<open>The globals when \<open>main\<close> starts: the arrays are zero-initialised.\<close>

definition globals_start :: "(nat \<Rightarrow> 64 word) \<Rightarrow> globals" where
  "globals_start rs = \<lparr>rev_g = (\<lambda>_. 0), buf_g = (\<lambda>_. 0), rnd_g = rs\<rparr>"

definition rnd :: "globals \<Rightarrow> 64 word \<times> globals" where
  "rnd gl = (rnd_g gl 0, gl\<lparr>rnd_g := \<lambda>i. rnd_g gl (Suc i)\<rparr>)"

definition dist_rnd :: "globals \<Rightarrow> real \<times> globals" where
  "dist_rnd gl = (real (unat (rnd_g gl 0)) / 2 ^ 64, gl\<lparr>rnd_g := \<lambda>i. rnd_g gl (Suc i)\<rparr>)"

definition measure_rnd :: "nat \<Rightarrow> Qubits \<Rightarrow> globals \<Rightarrow> (nat \<times> Qubits \<times> globals) option" where
  "measure_rnd p st gl =
     (let (u, gl') = dist_rnd gl in
      case measure_qubit p u st of None \<Rightarrow> None
      | Some (d, st') \<Rightarrow> Some (d, st', gl'))"

text \<open>
  The butterfly of \<open>QFT\<close> for one half-block size \<open>mid\<close>.  The twiddle factor \<open>p\<close> is carried
  through the inner loop (\<open>p *= w\<close>) as in the source, where no statement reads it.
\<close>

definition butterfly :: "nat \<Rightarrow> nat \<Rightarrow> (nat \<Rightarrow> complex) \<Rightarrow> (nat \<Rightarrow> complex) option" where
  "butterfly lm mid b0 =
     (let w = Complex (cos (pi / real mid)) (sin (pi / real mid)) in
      for_each (map (\<lambda>q. q * (2 * mid)) [0..<lm div (2 * mid)])
        (\<lambda>j b.
           map_option fst
             (for_each [0..<mid]
                (\<lambda>k (b, p).
                   do {
                     u \<leftarrow> arr_get maxs b (j + k);
                     v \<leftarrow> arr_get maxs b (j + k + mid);
                     b1 \<leftarrow> arr_set maxs (j + k) (u + v) b;
                     b2 \<leftarrow> arr_set maxs (j + k + mid) (u - v) b1;
                     Some (b2, p * w)
                   })
                (b, 1)))
        b0)"

text \<open>
  The butterfly as the specification words it, for comparison: a radix-2 butterfly with the
  twiddle factor \<open>exp(i\<cdot>\<pi>/mid)\<close>, so the upper entry is multiplied by \<open>p\<close> before the sum and
  the difference are taken.
\<close>

definition butterfly_spec :: "nat \<Rightarrow> nat \<Rightarrow> (nat \<Rightarrow> complex) \<Rightarrow> (nat \<Rightarrow> complex) option" where
  "butterfly_spec lm mid b0 =
     (let w = Complex (cos (pi / real mid)) (sin (pi / real mid)) in
      for_each (map (\<lambda>q. q * (2 * mid)) [0..<lm div (2 * mid)])
        (\<lambda>j b.
           map_option fst
             (for_each [0..<mid]
                (\<lambda>k (b, p).
                   do {
                     u \<leftarrow> arr_get maxs b (j + k);
                     v \<leftarrow> map_option (\<lambda>z. p * z) (arr_get maxs b (j + k + mid));
                     b1 \<leftarrow> arr_set maxs (j + k) (u + v) b;
                     b2 \<leftarrow> arr_set maxs (j + k + mid) (u - v) b1;
                     Some (b2, p * w)
                   })
                (b, 1)))
        b0)"

definition QFT :: "Qubits \<Rightarrow> nat \<Rightarrow> nat \<Rightarrow> globals \<Rightarrow> (Qubits \<times> globals) option" where
  "QFT st m t gl =
     (let lm = 2 ^ m in
      do {
        b1 \<leftarrow> for_each [0..<lm]
               (\<lambda>i b. do { x \<leftarrow> get_at (qa st) (i OR push_bit m t); arr_set maxs i x b })
               (buf_g gl);
        b2 \<leftarrow> for_each [0..<lm]
               (\<lambda>i b.
                  do {
                    r \<leftarrow> arr_get maxs (rev_g gl) i;
                    if i < r
                    then do {
                      x \<leftarrow> arr_get maxs b i;
                      y \<leftarrow> arr_get maxs b r;
                      b' \<leftarrow> arr_set maxs i y b;
                      arr_set maxs r x b'
                    }
                    else Some b
                  })
               b1;
        b3 \<leftarrow> for_each (map (\<lambda>l. 2 ^ l) [0..<m]) (butterfly lm) b2;
        pr \<leftarrow> for_each [0..<lm]
               (\<lambda>i pr. do { x \<leftarrow> arr_get maxs b3 i; Some (pr + (cmod x)\<^sup>2) })
               (0 :: real);
        a' \<leftarrow> for_each [0..<lm]
               (\<lambda>i a.
                  do {
                    x \<leftarrow> arr_get maxs b3 i;
                    set_at (i OR push_bit m t) (x / complex_of_real pr) a
                  })
               (qa st);
        Some (st\<lparr>qa := a'\<rparr>, gl\<lparr>buf_g := b3\<rparr>)
      })"

section \<open>Period finding and factoring\<close>

text \<open>\<open>while((1ll<<n)<N)n++;\<close>\<close>

function find_n :: "nat \<Rightarrow> int \<Rightarrow> nat" where
  "find_n n N = (if 2 ^ n < N then find_n (Suc n) N else n)"
  by pat_completeness auto
termination
  by (relation "measure (\<lambda>(n, N). nat (N - 2 ^ n))") auto

declare find_n.simps [simp del]

text \<open>
  The continued-fraction loop; the vector \<open>frac\<close> is \<open>fracs\<close>.  \<open>frac.size()-2\<close> is \<open>-1\<close> as
  an \<open>int\<close> when the vector has one entry, so the inner loop runs over the entries before the last one, from the back.  The loop
  ends by \<open>q = 0\<close> or by \<open>break\<close> (\<open>Exhausted\<close>) or by \<open>return x\<close> (\<open>Found x\<close>).
\<close>

datatype cf_result = Found int | Exhausted

definition cf_candidate :: "int list \<Rightarrow> int" where
  "cf_candidate fracs = fst (fold (\<lambda>f (x, y). (y + f * x, x)) (rev (butlast fracs)) (last fracs, 1))"

function cf_search :: "int \<Rightarrow> int \<Rightarrow> int \<Rightarrow> int \<Rightarrow> int list \<Rightarrow> cf_result option" where
  "cf_search a N p q fracs =
     (if q = 0 then Some Exhausted
      else
        let fracs' = fracs @ [p sdiv q]; x = cf_candidate fracs' in
        if x \<ge> N then Some Exhausted
        else if x \<noteq> 0
        then (case power_ll a x N of None \<Rightarrow> None
              | Some pw \<Rightarrow> if pw = 1 then Some (Found x) else cf_search a N q (p smod q) fracs')
        else cf_search a N q (p smod q) fracs')"
  by pat_completeness auto
termination
proof (relation "measure (\<lambda>(a, N, p, q, fracs). nat \<bar>q\<bar>)")
  show "wf (measure (\<lambda>(a :: int, N :: int, p :: int, q :: int, fracs :: int list). nat \<bar>q\<bar>))"
    by simp
next
  fix a N p q :: int and fracs f' :: "int list" and x pw :: int
  assume "q \<noteq> 0"
  then have "\<bar>p smod q\<bar> < \<bar>q\<bar>"
    by (simp add: signed_modulo_int_def abs_mult abs_sgn_eq)
  then show "((a, N, q, p smod q, f'), (a, N, p, q, fracs))
      \<in> measure (\<lambda>(a, N, p, q, fracs). nat \<bar>q\<bar>)"
    by simp
  then show "((a, N, q, p smod q, f'), (a, N, p, q, fracs))
      \<in> measure (\<lambda>(a, N, p, q, fracs). nat \<bar>q\<bar>)" .
qed

declare cf_search.simps [simp del]

text \<open>The body of the loop \<open>for(int T=1;T<=10;T++)\<close>, in the order of the source.\<close>

definition shor_prepare :: "int \<Rightarrow> Qubits option" where
  "shor_prepare N =
     (let n = find_n 0 N; m = 2 * n in
      do {
        st0 \<leftarrow> Qubits_new (m + n);
        st1 \<leftarrow> for_each [0..<m] (apply_gate H) st0;
        apply_gate X m st1
      })"

definition measure_bits :: "nat list \<Rightarrow> nat \<Rightarrow> Qubits \<Rightarrow> globals \<Rightarrow> (int \<times> Qubits \<times> globals) option" where
  "measure_bits ps lo st gl =
     for_each ps
       (\<lambda>i (t, st, gl).
          case measure_rnd i st gl of None \<Rightarrow> None
          | Some (d, st', gl') \<Rightarrow> Some (t OR push_bit (i - lo) (int d), st', gl'))
       (0, st, gl)"

definition rev_fill :: "nat \<Rightarrow> globals \<Rightarrow> globals option" where
  "rev_fill m gl =
     for_each [1..<2 ^ m]
       (\<lambda>i gl.
          do {
            r \<leftarrow> arr_get maxs (rev_g gl) (drop_bit 1 i);
            rv \<leftarrow> arr_set maxs i (r OR push_bit (m - 1) (i AND 1)) (rev_g gl);
            Some (gl\<lparr>rev_g := rv\<rparr>)
          })
       gl"

definition attempt :: "int \<Rightarrow> int \<Rightarrow> globals \<Rightarrow> (cf_result \<times> globals) option" where
  "attempt a N gl =
     (let n = find_n 0 N; m = 2 * n in
      do {
        st2 \<leftarrow> shor_prepare N;
        st3 \<leftarrow> for_each [0..<m] (\<lambda>i st. mul st i a N) st2;
        (t, st4, gl1) \<leftarrow> measure_bits [m..<m + n] m st3 gl;
        gl2 \<leftarrow> rev_fill m gl1;
        (st5, gl3) \<leftarrow> QFT st4 m (nat t) gl2;
        (aux, st6, gl4) \<leftarrow> measure_bits [0..<m] 0 st5 gl3;
        r \<leftarrow> cf_search a N aux (2 ^ m) [];
        Some (r, gl4)
      })"

fun attempts :: "nat \<Rightarrow> int \<Rightarrow> int \<Rightarrow> globals \<Rightarrow> (int \<times> globals) option" where
  "attempts 0 a N gl = Some (0, gl)"
| "attempts (Suc k) a N gl =
     (case attempt a N gl of None \<Rightarrow> None
      | Some (Found x, gl') \<Rightarrow> Some (x, gl')
      | Some (Exhausted, gl') \<Rightarrow> attempts k a N gl')"

definition shor_quantum_part :: "int \<Rightarrow> int \<Rightarrow> globals \<Rightarrow> (int \<times> globals) option" where
  "shor_quantum_part a N gl = attempts 10 a N gl"

text \<open>
  \<open>factor\<close>.  \<open>rnd()%(n-1)+1\<close> is computed in unsigned 64-bit arithmetic and stored in an
  \<open>ll\<close>.  The pair that \<open>printf\<close> writes before \<open>exit(0)\<close> is the result.
\<close>

definition div_ll :: "int \<Rightarrow> int \<Rightarrow> int option" where
  "div_ll x y = (if y = 0 then None else Some (x sdiv y))"

definition post_process :: "int \<Rightarrow> int \<Rightarrow> int \<Rightarrow> (int \<times> int) option" where
  "post_process a r n =
     do {
       pw1 \<leftarrow> power_ll a (r sdiv 2 - 1) n;
       let x = gcd_ll pw1 n in
       if x > 1 then map_option (Pair x) (div_ll n x)
       else do {
         pw2 \<leftarrow> power_ll a (r sdiv 2 + 1) n;
         let x = gcd_ll pw2 n in
         map_option (Pair x) (div_ll n x)
       }
     }"

partial_function (option) factor :: "int \<Rightarrow> globals \<Rightarrow> (int \<times> int) option" where
  "factor n gl =
     (case rnd gl of (r0, gl1) \<Rightarrow>
        if (word_of_int (n - 1) :: 64 word) = 0 then None
        else
          let a = sint (r0 mod word_of_int (n - 1) + 1); g = gcd_ll n a in
          if g > 1 then map_option (Pair g) (div_ll n g)
          else (case shor_quantum_part a n gl1 of None \<Rightarrow> None
                | Some (r, gl2) \<Rightarrow>
                    if r = 0 \<or> odd r then factor n gl2 else post_process a r n))"

section \<open>Grover.cpp\<close>








section \<open>Notions used in the statements\<close>

text \<open>A state as the constructor and the operations leave it.\<close>

definition wf_state :: "Qubits \<Rightarrow> bool" where
  "wf_state st \<longleftrightarrow> qn st < 31 \<and> length (qa st) = 2 ^ qn st"

text \<open>
  The index to which \<open>mul\<close> moves the amplitude of the index \<open>s\<close>, the second register
  starting at bit \<open>m\<close>.
\<close>

definition mul_target :: "nat \<Rightarrow> nat \<Rightarrow> int \<Rightarrow> int \<Rightarrow> nat \<Rightarrow> nat" where
  "mul_target m con v N s =
     (if bit s con
      then push_bit m (nat (mul_transform v N (int (drop_bit m s)))) OR take_bit m s
      else s)"

text \<open>Every index with a nonzero amplitude has a second-register value below \<open>N\<close>.\<close>

definition second_reg_below :: "nat \<Rightarrow> int \<Rightarrow> vec \<Rightarrow> bool" where
  "second_reg_below m N v \<longleftrightarrow> (\<forall>s<length v. v ! s \<noteq> 0 \<longrightarrow> int (drop_bit m s) < N)"

text \<open>
  The marginal probability of the outcome \<open>d\<close> for the qubit \<open>p\<close>: the sum that \<open>measure\<close>
  collects in \<open>pro[d]\<close>.
\<close>

definition marginal :: "nat \<Rightarrow> nat \<Rightarrow> vec \<Rightarrow> real" where
  "marginal p d v =
     (\<Sum>s<length v. if (if bit s p then 1 else 0) = d then (cmod (v ! s))\<^sup>2 else 0)"


text \<open>The globals after \<open>k\<close> attempts of \<open>shor_quantum_part\<close> that all ended without a period.\<close>

fun after_attempts :: "nat \<Rightarrow> int \<Rightarrow> int \<Rightarrow> globals \<Rightarrow> globals option" where
  "after_attempts 0 a N gl = Some gl"
| "after_attempts (Suc k) a N gl =
     (case attempt a N gl of
        Some (Exhausted, gl') \<Rightarrow> after_attempts k a N gl'
      | _ \<Rightarrow> None)"


text \<open>
  The base that \<open>factor\<close> computes from the value \<open>r0\<close> of the engine:
  \<open>rnd()%(n-1)+1\<close>, in unsigned 64-bit arithmetic, stored in an \<open>ll\<close>.
\<close>

definition drawn_base :: "int \<Rightarrow> 64 word \<Rightarrow> int" where
  "drawn_base n r0 = sint (r0 mod word_of_int (n - 1) + 1)"

text \<open>
  \<open>mul\<close> with the control \<open>con\<close> and the multiplier \<open>v\<close> sends no two indices with nonzero
  amplitudes to the same index.
\<close>

definition supp_inj :: "nat \<Rightarrow> nat \<Rightarrow> int \<Rightarrow> int \<Rightarrow> vec \<Rightarrow> bool" where
  "supp_inj m con v N q \<longleftrightarrow>
     (\<forall>s<length q. \<forall>s'<length q.
        q ! s \<noteq> 0 \<and> q ! s' \<noteq> 0 \<and> mul_target m con v N s = mul_target m con v N s' \<longrightarrow> s = s')"

text \<open>
  The first register determines the index among those with a nonzero amplitude: the state
  is a superposition of pairs of an exponent and one value for it.
\<close>

definition low_determines :: "nat \<Rightarrow> vec \<Rightarrow> bool" where
  "low_determines m q \<longleftrightarrow>
     (\<forall>s<length q. \<forall>s'<length q.
        q ! s \<noteq> 0 \<and> q ! s' \<noteq> 0 \<and> take_bit m s = take_bit m s' \<longrightarrow> s = s')"

section \<open>Properties\<close>

subsection \<open>The loop of \<open>power\<close>\<close>

lemma power_loop_zero: "power_loop res x 0 n = Some res"
  by (subst power_loop.simps) simp

lemma power_loop_step:
  "b \<noteq> 0 \<Longrightarrow> n \<noteq> 0 \<Longrightarrow>
   power_loop res x b n =
     power_loop (if odd b then (x * x) smod n else res) ((x * x) smod n) (b div 2) n"
  by (subst power_loop.simps) simp

text \<open>
  C1.  The claim is that \<open>power(x, b, n)\<close> returns \<open>x ^ b mod n\<close>.  The loop assigns
  \<open>res = x * x % n\<close> where square-and-multiply has \<open>res = res * x % n\<close>: at \<open>x = 2\<close>, \<open>b = 1\<close>,
  \<open>n = 15\<close> the code returns \<open>4\<close>, and \<open>2 ^ 1 mod 15\<close> is \<open>2\<close>.
\<close>

theorem power_2_1_15: "power_ll 2 1 15 = Some 4 \<and> (2::int) ^ 1 mod 15 = 2"
  by (simp add: power_ll_def power_loop_step power_loop_zero signed_modulo_int_def)

lemma smod_nonneg: "0 \<le> k \<Longrightarrow> 0 < n \<Longrightarrow> k smod n = k mod (n::int)"
  by (cases "k = 0") (simp_all add: signed_modulo_int_def)

lemma sdiv_nonneg: "0 \<le> k \<Longrightarrow> 0 < n \<Longrightarrow> k sdiv n = k div (n::int)"
  by (cases "k = 0") (simp_all add: signed_divide_int_def)

lemma power_loop_pow2:
  "0 < n \<Longrightarrow> power_loop res x (2 ^ i) n = Some (x ^ (2 ^ Suc i) mod n)"
proof (induction i arbitrary: res x)
  case 0
  then show ?case
    by (simp add: power_loop_step power_loop_zero smod_nonneg power2_eq_square)
next
  case (Suc i)
  have "power_loop res x (2 ^ Suc i) n = power_loop res ((x * x) smod n) (2 ^ i) n"
    using Suc.prems by (subst power_loop_step) simp_all
  also have "\<dots> = Some (((x * x) smod n) ^ (2 ^ Suc i) mod n)"
    using Suc.IH [OF Suc.prems] .
  also have "(x * x) smod n = (x * x) mod n"
    using Suc.prems by (simp add: smod_nonneg)
  also have "((x * x) mod n) ^ (2 ^ Suc i) mod n = x ^ (2 ^ Suc (Suc i)) mod n"
  proof -
    have "((x * x) mod n) ^ (2 ^ Suc i) mod n = (x * x) ^ (2 ^ Suc i) mod n"
      by (rule power_mod)
    also have "(x * x) ^ (2 ^ Suc i) = x ^ (2 * 2 ^ Suc i)"
      by (simp only: power2_eq_square [symmetric] power_mult)
    also have "2 * 2 ^ Suc i = (2::nat) ^ Suc (Suc i)" by simp
    finally show ?thesis .
  qed
  finally show ?case .
qed

text \<open>The multiplier of \<open>mul\<close>: the code's \<open>power\<close> squares once more than the exponent says.\<close>

lemma power_ll_pow2: "0 < N \<Longrightarrow> power_ll a (2 ^ i) N = Some (a ^ (2 ^ Suc i) mod N)"
  by (simp add: power_ll_def power_loop_pow2)

lemma power_loop_total:
  "0 \<le> b \<Longrightarrow> n \<noteq> 0 \<Longrightarrow> \<exists>y. power_loop res x b n = Some y"
proof (induction "nat b" arbitrary: b res x rule: less_induct)
  case less
  show ?case
  proof (cases "b = 0")
    case True
    then show ?thesis by (simp add: power_loop_zero)
  next
    case False
    with less.prems have "nat (b div 2) < nat b" "0 \<le> b div 2" by auto
    from less.hyps [OF this(1) this(2) less.prems(2)] show ?thesis
      using False less.prems by (subst power_loop_step) auto
  qed
qed

subsection \<open>Lists of loop indices\<close>

lemma upt_small:
  "[0..<Suc 0] = [0]" "[0..<1] = [0]" "[0..<2] = [0, 1]" "[0..<4] = [0, 1, 2, 3]"
  "[Suc 0..<4] = [1, 2, 3]" "[0..<8] = [0, 1, 2, 3, 4, 5, 6, 7]"
  "[Suc 0..<8] = [1, 2, 3, 4, 5, 6, 7]"
  by (simp_all add: upt_rec)

subsection \<open>The continued-fraction search\<close>

text \<open>
  C2.  The claim is that the search tests the denominators of the convergents of
  \<open>aux / 2 ^ m\<close> and that, for \<open>aux = 128\<close>, \<open>2 ^ m = 256\<close>, \<open>N = 15\<close>, the first candidate
  tested is the denominator \<open>2\<close>.  After the inner loop and its \<open>swap\<close> the variable \<open>x\<close> holds
  the numerator of the convergent (the denominator is in \<open>y\<close>): for the expansion \<open>[0; 2]\<close> of
  \<open>128 / 256\<close> the candidates are \<open>0\<close> and then \<open>1\<close>, and the loop ends with \<open>q = 0\<close>.  For
  \<open>a = 2\<close> nothing is found; for \<open>a = 4\<close>, whose order modulo \<open>15\<close> is \<open>2\<close>, the search returns
  \<open>1\<close>.
\<close>

theorem cf_search_128_256_15:
  "cf_candidate [0] = 0 \<and> cf_candidate [0, 2] = 1 \<and>
   cf_search 2 15 128 256 [] = Some Exhausted \<and>
   cf_search 4 15 128 256 [] = Some (Found 1)"
  by (simp add: cf_search.simps cf_candidate_def signed_modulo_int_def signed_divide_int_def
      power_ll_def power_loop_step power_loop_zero)

subsection \<open>The Fourier transform\<close>

text \<open>
  C5.  The claim is that \<open>QFT\<close> applies the bit-reversal permutation and then a radix-2
  butterfly with the twiddle factor \<open>exp(i\<cdot>\<pi>/mid)\<close>, and divides by the squared norm.  The
  loop that fills \<open>rev\<close> omits the shift of \<open>rev[i>>1]\<close>: for \<open>m = 3\<close> the table is
  \<open>0, 4, 4, 4, 4, 4, 4, 4\<close>, where bit reversal is \<open>0, 4, 2, 6, 1, 5, 3, 7\<close>.  The butterfly
  computes \<open>p\<close> and never multiplies by it: on the buffer \<open>0, 0, 1, 1\<close> with \<open>mid = 2\<close> the
  entry 1 becomes \<open>1\<close>, and \<open>\<i>\<close> with the twiddle factor.  The transform of the basis vector
  \<open>0, 1, 0, 0\<close> (\<open>m = 2\<close>, \<open>t = 0\<close>) is \<open>1/4, 1/4, -1/4, -1/4\<close>; the division by the squared
  norm \<open>4\<close> is as the claim says.
\<close>

theorem QFT_no_twiddle_no_bit_reversal:
  "map_option (\<lambda>gl. map (rev_g gl) [0..<8]) (rev_fill 3 (globals_start rs))
     = Some [0, 4, 4, 4, 4, 4, 4, 4] \<and>
   map_option (\<lambda>b. b 1) (butterfly 4 2 ((\<lambda>_. 0)(2 := 1, 3 := 1))) = Some 1 \<and>
   map_option (\<lambda>b. b 1) (butterfly_spec 4 2 ((\<lambda>_. 0)(2 := 1, 3 := 1))) = Some \<i> \<and>
   map_option (qa \<circ> fst)
     (QFT \<lparr>qn = 2, qa = [0, 1, 0, 0]\<rparr> 2 0
        (globals_start rs\<lparr>rev_g := (\<lambda>_. 0)(1 := 2, 2 := 2, 3 := 2)\<rparr>))
     = Some [1 / 4, 1 / 4, - 1 / 4, - 1 / 4] \<and>
   map_option (\<lambda>gl. map (rev_g gl) [0..<4]) (rev_fill 2 (globals_start rs))
     = Some [0, 2, 2, 2]"
  by (simp add: rev_fill_def globals_start_def upt_small arr_get_def arr_set_def maxs_def
      QFT_def butterfly_def butterfly_spec_def get_at_def set_at_def complex_eq_iff Let_def)

subsection \<open>The transform of the second register\<close>

text \<open>
  C3.  The claim is that the transform is a bijection on \<open>[0, 2 ^ n)\<close>.  Its values are
  below \<open>N\<close>, and an odd \<open>N\<close> is below \<open>2 ^ n\<close>: for \<open>N = 15\<close>, \<open>a = 2\<close>, \<open>i = 0\<close> the
  multiplier is \<open>4\<close>, \<open>n = 4\<close>, and the values \<open>0\<close> and \<open>15\<close> of the second register are both
  sent to \<open>0\<close>.
\<close>

theorem mul_transform_collision:
  "power_ll 2 (2 ^ 0) 15 = Some 4 \<and> find_n 0 15 = 4 \<and> (15 :: int) < 2 ^ 4 \<and>
   mul_transform 4 15 0 = mul_transform 4 15 15"
  by (simp add: power_ll_def power_loop_step power_loop_zero signed_modulo_int_def
      mul_transform_def find_n.simps)

subsection \<open>Loops that add into a fresh vector\<close>

lemma for_each_scatter:
  assumes "\<And>s b. s \<in> set ss \<Longrightarrow> length b = L \<Longrightarrow> step s b = add_at (f s) (g s) b"
    and "\<And>s. s \<in> set ss \<Longrightarrow> f s < L"
    and "length b = L"
  shows "\<exists>b'. for_each ss step b = Some b' \<and> length b' = L \<and>
           (\<forall>t<L. b' ! t = b ! t + (\<Sum>s\<leftarrow>ss. if f s = t then g s else 0))"
  using assms
proof (induction ss arbitrary: b)
  case Nil
  then show ?case by simp
next
  case (Cons s ss)
  let ?b1 = "b[f s := b ! f s + g s]"
  have fs: "f s < L" using Cons.prems(2) by simp
  have step: "step s b = Some ?b1"
    using Cons.prems(1) [of s b] Cons.prems(3) fs by (simp add: add_at_def)
  have "\<exists>b'. for_each ss step ?b1 = Some b' \<and> length b' = L \<and>
           (\<forall>t<L. b' ! t = ?b1 ! t + (\<Sum>s\<leftarrow>ss. if f s = t then g s else 0))"
    by (rule Cons.IH) (use Cons.prems in auto)
  then obtain b' where b': "for_each ss step ?b1 = Some b'" "length b' = L"
    "\<forall>t<L. b' ! t = ?b1 ! t + (\<Sum>s\<leftarrow>ss. if f s = t then g s else 0)"
    by blast
  have "\<forall>t<L. b' ! t = b ! t + (\<Sum>s\<leftarrow>s # ss. if f s = t then g s else 0)"
    using b'(3) Cons.prems(3) fs by (auto simp add: nth_list_update)
  with b'(1,2) step show ?case by simp
qed

lemma sum_list_upt_sum: "(\<Sum>s\<leftarrow>[0..<L]. h s) = (\<Sum>s<L. h s)" for h :: "nat \<Rightarrow> 'a::comm_monoid_add"
  by (simp add: interv_sum_list_conv_sum_set_nat atLeast0LessThan)

lemma normsq_sum: "normsq v = (\<Sum>t<length v. (cmod (v ! t))\<^sup>2)"
  unfolding normsq_def
  by (simp add: sum_list_sum_nth atLeast0LessThan)

text \<open>Moving amplitudes along a map that is injective on the support keeps the norm.\<close>

lemma scatter_norm:
  fixes g :: "nat \<Rightarrow> complex"
  assumes inj: "\<And>s s'. s < L \<Longrightarrow> s' < L \<Longrightarrow> g s \<noteq> 0 \<Longrightarrow> g s' \<noteq> 0 \<Longrightarrow> f s = f s' \<Longrightarrow> s = s'"
    and rng: "\<And>s. s < L \<Longrightarrow> f s < L"
  shows "(\<Sum>t<L. (cmod (\<Sum>s<L. if f s = t then g s else 0))\<^sup>2) = (\<Sum>s<L. (cmod (g s))\<^sup>2)"
proof -
  have one: "(cmod (\<Sum>s<L. if f s = t then g s else 0))\<^sup>2
      = (\<Sum>s<L. if f s = t then (cmod (g s))\<^sup>2 else 0)" for t
  proof (cases "\<exists>s0<L. f s0 = t \<and> g s0 \<noteq> 0")
    case True
    then obtain s0 where s0: "s0 < L" "f s0 = t" "g s0 \<noteq> 0" by blast
    have key: "s = s0" if "s < L" "f s = t" "g s \<noteq> 0" for s
    proof (rule inj)
      show "s < L" "s0 < L" "g s \<noteq> 0" "g s0 \<noteq> 0" by (fact that s0)+
      show "f s = f s0" by (simp only: that(2) s0(2))
    qed
    have a: "(if f s = t then g s else 0) = (if s = s0 then g s0 else 0)" if "s < L" for s
    proof (cases "s = s0")
      case True
      then show ?thesis by (simp add: s0(2))
    next
      case False
      with key [OF that] have "f s = t \<Longrightarrow> g s = 0" by blast
      with False show ?thesis by auto
    qed
    have b: "(if f s = t then (cmod (g s))\<^sup>2 else 0) = (if s = s0 then (cmod (g s0))\<^sup>2 else 0)"
      if "s < L" for s
    proof (cases "s = s0")
      case True
      then show ?thesis by (simp add: s0(2))
    next
      case False
      with key [OF that] have "f s = t \<Longrightarrow> g s = 0" by blast
      with False show ?thesis by auto
    qed
    have "(\<Sum>s<L. if f s = t then g s else 0) = (\<Sum>s<L. if s = s0 then g s0 else 0)"
      by (rule sum.cong) (use a in auto)
    moreover have "(\<Sum>s<L. if f s = t then (cmod (g s))\<^sup>2 else 0)
        = (\<Sum>s<L. if s = s0 then (cmod (g s0))\<^sup>2 else 0)"
      by (rule sum.cong) (use b in auto)
    ultimately show ?thesis using s0(1) by (simp add: sum.delta)
  next
    case False
    then have "(if f s = t then g s else 0) = 0" if "s < L" for s
      using that by auto
    then have z: "(\<Sum>s<L. if f s = t then g s else 0) = 0"
      by (intro sum.neutral) auto
    from False have "(if f s = t then (cmod (g s))\<^sup>2 else 0) = 0" if "s < L" for s
      using that by auto
    then have "(\<Sum>s<L. if f s = t then (cmod (g s))\<^sup>2 else 0) = 0"
      by (intro sum.neutral) auto
    with z show ?thesis by simp
  qed
  have "(\<Sum>t<L. (cmod (\<Sum>s<L. if f s = t then g s else 0))\<^sup>2)
      = (\<Sum>t<L. \<Sum>s<L. if f s = t then (cmod (g s))\<^sup>2 else 0)"
    by (simp add: one)
  also have "\<dots> = (\<Sum>s<L. \<Sum>t<L. if f s = t then (cmod (g s))\<^sup>2 else 0)"
    by (rule sum.swap)
  also have "\<dots> = (\<Sum>s<L. (cmod (g s))\<^sup>2)"
    by (rule sum.cong) (use rng in \<open>auto simp add: sum.delta'\<close>)
  finally show ?thesis .
qed

subsection \<open>Indices and multiplication modulo \<open>N\<close>\<close>

lemma nat_bit_bound: "w < 2 ^ k \<Longrightarrow> bit (w::nat) j \<Longrightarrow> j < k"
proof -
  assume a: "w < 2 ^ k" "bit w j"
  then have "take_bit k w = w" by (simp add: take_bit_nat_eq_self)
  then have "bit (take_bit k w) j" using a(2) by simp
  then show ?thesis by (simp add: bit_take_bit_iff)
qed

lemma idx_bound: "w < 2 ^ k \<Longrightarrow> push_bit m w OR take_bit m s < (2::nat) ^ (m + k)"
proof -
  assume w: "w < 2 ^ k"
  have "take_bit (m + k) (push_bit m w OR take_bit m s) = push_bit m w OR take_bit m s"
    by (rule bit_eqI) (auto simp add: bit_simps dest: nat_bit_bound [OF w])
  then show ?thesis by (rule take_bit_nat_eq_self_iff [THEN iffD1])
qed

lemma idx_hi: "drop_bit m (push_bit m w OR take_bit m s) = (w::nat)"
  by (rule bit_eqI) (auto simp add: bit_simps)

lemma idx_lo: "take_bit m (push_bit m w OR take_bit m s) = take_bit m (s::nat)"
  by (rule bit_eqI) (auto simp add: bit_simps)

lemma idx_bit: "con < m \<Longrightarrow> bit (push_bit m w OR take_bit m s) con = bit (s::nat) con"
  by (auto simp add: bit_simps)

lemma idx_eqI: "drop_bit m s = drop_bit m s' \<Longrightarrow> take_bit m s = take_bit m s' \<Longrightarrow> s = (s'::nat)"
proof -
  assume a: "drop_bit m s = drop_bit m s'" "take_bit m s = take_bit m s'"
  have "s = push_bit m (drop_bit m s) + take_bit m s" by (simp add: bits_ident)
  also have "\<dots> = push_bit m (drop_bit m s') + take_bit m s'" by (simp only: a)
  also have "\<dots> = s'" by (simp add: bits_ident)
  finally show ?thesis .
qed

lemma idx_nat:
  assumes "0 \<le> w"
  shows "push_bit m w OR int (s AND (2 ^ m - 1)) = int (push_bit m (nat w) OR take_bit m s)"
proof -
  have "s AND (2 ^ m - 1) = take_bit m s"
    by (simp add: take_bit_eq_mask mask_eq_exp_minus_1)
  moreover have "push_bit m w = int (push_bit m (nat w))"
    using assms by (simp add: of_nat_push_bit)
  ultimately show ?thesis by (simp add: of_nat_or_eq)
qed

lemma ctl_bit: "(drop_bit con s AND 1 = 0) = (\<not> bit (s::nat) con)"
  by (simp add: and_one_eq bit_iff_odd_drop_bit even_iff_mod_2_eq_zero)

lemma mult_mod_inj:
  fixes v N x y :: int
  assumes "coprime v N" "0 \<le> x" "x < N" "0 \<le> y" "y < N" "(x * v) mod N = (y * v) mod N"
  shows "x = y"
proof -
  from assms(6) have "N dvd x * v - y * v" by (simp add: mod_eq_dvd_iff)
  then have "N dvd (x - y) * v" by (simp add: algebra_simps)
  with assms(1) have "N dvd x - y"
    by (simp add: coprime_dvd_mult_left_iff coprime_commute)
  moreover have "\<bar>x - y\<bar> < N" using assms by auto
  ultimately have "x - y = 0"
    using zdvd_not_zless [of "\<bar>x - y\<bar>" N] by (cases "x - y = 0") auto
  then show ?thesis by simp
qed

lemma mul_transform_range: "0 < N \<Longrightarrow> 0 \<le> v \<Longrightarrow> 0 \<le> x \<Longrightarrow>
  0 \<le> mul_transform v N x \<and> mul_transform v N x < N"
  by (simp add: mul_transform_def smod_nonneg)

lemma mul_transform_mod: "0 < N \<Longrightarrow> 0 \<le> v \<Longrightarrow> 0 \<le> x \<Longrightarrow>
  mul_transform v N x = (x * v) mod N"
  by (simp add: mul_transform_def smod_nonneg)

lemma mul_transform_bij:
  assumes "0 < N" "0 \<le> v" "coprime v N"
  shows "bij_betw (mul_transform v N) {0..<N} {0..<N}"
proof -
  have inj: "inj_on (mul_transform v N) {0..<N}"
  proof (rule inj_onI)
    fix x y assume xy: "x \<in> {0..<N}" "y \<in> {0..<N}"
      and eq: "mul_transform v N x = mul_transform v N y"
    from xy have b: "0 \<le> x" "x < N" "0 \<le> y" "y < N" by simp_all
    from eq have "(x * v) mod N = (y * v) mod N"
      by (simp only: mul_transform_mod [OF assms(1,2) b(1)] mul_transform_mod [OF assms(1,2) b(3)])
    with assms(3) b show "x = y" by (rule mult_mod_inj)
  qed
  have sub: "mul_transform v N ` {0..<N} \<subseteq> {0..<N}"
  proof
    fix y assume "y \<in> mul_transform v N ` {0..<N}"
    then obtain x where x: "0 \<le> x" "x < N" "y = mul_transform v N x" by auto
    from mul_transform_range [OF assms(1,2) x(1)] x(3) show "y \<in> {0..<N}" by simp
  qed
  have "mul_transform v N ` {0..<N} = {0..<N}"
    by (rule endo_inj_surj) (use inj sub in auto)
  with inj show ?thesis by (simp add: bij_betw_def)
qed

lemma multiplier_coprime:
  fixes a N :: int
  assumes "coprime a N" "0 < N"
  shows "coprime (a ^ k mod N) N \<and> 0 \<le> a ^ k mod N"
proof -
  from assms(2) have "N \<noteq> 0" by simp
  then have "coprime (a ^ k mod N) N = coprime (a ^ k) N"
    by (rule coprime_mod_left_iff)
  moreover have "coprime (a ^ k) N"
    using assms(1) by (simp add: coprime_power_left_iff)
  ultimately show ?thesis using assms(2) by simp
qed

subsection \<open>\<open>mul\<close> as a gathering of amplitudes\<close>

lemma get_at_Some: "i < length xs \<Longrightarrow> get_at xs i = Some (xs ! i)"
  by (simp add: get_at_def)

lemma pow2_S: "(2::nat) ^ x - 1 + 1 = 2 ^ x"
  by simp

lemma mul_result:
  assumes n: "qn st = 3 * k" and len: "length (qa st) = 2 ^ (3 * k)"
    and N: "0 < N" "N \<le> 2 ^ k"
  shows "\<exists>st'. mul st con a N = Some st' \<and> qn st' = qn st \<and> length (qa st') = 2 ^ (3 * k) \<and>
     (\<forall>t<2 ^ (3 * k). qa st' ! t =
        (\<Sum>s<2 ^ (3 * k). if mul_target (2 * k) con (a ^ (2 ^ Suc con) mod N) N s = t
                          then qa st ! s else 0))"
proof -
  define v where "v = a ^ (2 ^ Suc con) mod N"
  define L :: nat where "L = 2 ^ (3 * k)"
  define step where "step = (\<lambda>s b.
                     if drop_bit con s AND 1 = 0
                     then (case get_at (qa st) s of None \<Rightarrow> None | Some x \<Rightarrow> add_at s x b)
                     else if N = 0 then None
                     else (case get_at (qa st) s of None \<Rightarrow> None
                           | Some x \<Rightarrow>
                               add_at_ll (push_bit (k * 2) (mul_transform v N (int (drop_bit (k * 2) s)))
                                  OR int (s AND (2 ^ (k * 2) - 1))) x b))"
  have q: "qn st div 3 = k" by (simp add: n)
  have L: "(2::nat) ^ (k * 3) = L" by (simp add: L_def mult.commute)
  have k2: "k * 2 = 2 * k" by simp
  have pw: "power_ll a (2 ^ con) N = Some v"
    unfolding v_def using N(1) by (rule power_ll_pow2)
  have v0: "0 \<le> v" unfolding v_def using N(1) by simp
  have unfold: "mul st con a N =
      (case for_each [0..<L] step (replicate L 0) of None \<Rightarrow> None
       | Some b \<Rightarrow> Some (st\<lparr>qa := b\<rparr>))"
    unfolding mul_def pw Let_def pow2_S step_def q L
    by simp
  have stepeq: "step s b = add_at (mul_target (2 * k) con v N s) (qa st ! s) b"
    if "s \<in> set [0..<L]" "length b = L" for s b
  proof -
    from that(1) have s: "s < length (qa st)" by (simp add: len L_def)
    show ?thesis
    proof (cases "bit s con")
      case False
      then show ?thesis
        unfolding step_def ctl_bit
        by (simp add: mul_target_def get_at_Some [OF s])
    next
      case True
      let ?w = "mul_transform v N (int (drop_bit (2 * k) s))"
      have w: "0 \<le> ?w" using mul_transform_range [OF N(1) v0, of "int (drop_bit (2 * k) s)"] by simp
      have "add_at_ll (push_bit (2 * k) ?w OR int (s AND (2 ^ (2 * k) - 1))) (qa st ! s) b
          = add_at (push_bit (2 * k) (nat ?w) OR take_bit (2 * k) s) (qa st ! s) b"
        by (simp only: idx_nat [OF w] add_at_ll_def) simp
      with True N(1) show ?thesis
        unfolding step_def k2 ctl_bit
        by (simp add: mul_target_def get_at_Some [OF s])
    qed
  qed
  have rng: "mul_target (2 * k) con v N s < L" if "s \<in> set [0..<L]" for s
  proof (cases "bit s con")
    case False
    with that show ?thesis by (simp add: mul_target_def)
  next
    case True
    let ?w = "mul_transform v N (int (drop_bit (2 * k) s))"
    have "0 \<le> ?w \<and> ?w < N"
      using mul_transform_range [OF N(1) v0, of "int (drop_bit (2 * k) s)"] by simp
    with N(2) have "?w < 2 ^ k" "0 \<le> ?w" by simp_all
    then have "nat ?w < 2 ^ k" by (simp add: nat_less_iff)
    then have "push_bit (2 * k) (nat ?w) OR take_bit (2 * k) s < 2 ^ (2 * k + k)"
      by (rule idx_bound)
    with True show ?thesis by (simp add: mul_target_def L_def)
  qed
  from for_each_scatter [of "[0..<L]" L step "mul_target (2 * k) con v N" "\<lambda>s. qa st ! s"
      "replicate L 0", OF stepeq rng]
  obtain b' where b': "for_each [0..<L] step (replicate L 0) = Some b'" "length b' = L"
    "\<forall>t<L. b' ! t = replicate L 0 ! t +
        (\<Sum>s\<leftarrow>[0..<L]. if mul_target (2 * k) con v N s = t then qa st ! s else 0)"
    by auto
  from b'(3) have "\<forall>t<L. b' ! t =
        (\<Sum>s<L. if mul_target (2 * k) con v N s = t then qa st ! s else 0)"
    by (simp add: sum_list_upt_sum)
  with b'(1,2) unfold show ?thesis
    by (simp add: L_def v_def)
qed

subsection \<open>\<open>mul\<close> on states whose second register is below \<open>N\<close>\<close>

lemma mul_target_bit: "con < m \<Longrightarrow> bit (mul_target m con v N s) con = bit s con"
  by (cases "bit s con") (simp_all only: mul_target_def if_True if_False idx_bit)

lemma mul_target_low: "take_bit m (mul_target m con v N s) = take_bit m s"
  by (cases "bit s con") (simp_all only: mul_target_def if_True if_False idx_lo)

lemma mul_target_high:
  assumes "0 < N" "0 \<le> v"
  shows "int (drop_bit m (mul_target m con v N s)) =
     (if bit s con then mul_transform v N (int (drop_bit m s)) else int (drop_bit m s))"
proof -
  have "0 \<le> mul_transform v N (int (drop_bit m s))"
    using mul_transform_range [OF assms, of "int (drop_bit m s)"] by simp
  then have "int (nat (mul_transform v N (int (drop_bit m s)))) = mul_transform v N (int (drop_bit m s))"
    by simp
  then show ?thesis
    by (cases "bit s con") (simp_all only: mul_target_def if_True if_False idx_hi)
qed

lemma mul_target_inj:
  assumes N: "0 < N" "0 \<le> v" and cop: "coprime v N" and con: "con < m"
    and s: "int (drop_bit m s) < N" "int (drop_bit m s') < N"
    and eq: "mul_target m con v N s = mul_target m con v N s'"
  shows "s = s'"
proof -
  have bits: "bit s con = bit s' con"
    using mul_target_bit [OF con, of v N s] mul_target_bit [OF con, of v N s'] eq by simp
  have lo: "take_bit m s = take_bit m s'"
    using mul_target_low [of m con v N s] mul_target_low [of m con v N s'] eq by simp
  have hi: "(if bit s con then mul_transform v N (int (drop_bit m s)) else int (drop_bit m s))
      = (if bit s' con then mul_transform v N (int (drop_bit m s')) else int (drop_bit m s'))"
    using mul_target_high [OF N, of m con s] mul_target_high [OF N, of m con s'] eq by simp
  have "int (drop_bit m s) = int (drop_bit m s')"
  proof (cases "bit s con")
    case False
    with bits hi show ?thesis by simp
  next
    case True
    with bits hi have e: "mul_transform v N (int (drop_bit m s)) = mul_transform v N (int (drop_bit m s'))"
      by simp
    have b: "0 \<le> int (drop_bit m s)" "0 \<le> int (drop_bit m s')" by simp_all
    from e have "(int (drop_bit m s) * v) mod N = (int (drop_bit m s') * v) mod N"
      by (simp only: mul_transform_mod [OF N b(1)] mul_transform_mod [OF N b(2)])
    with cop b(1) s(1) b(2) s(2) show ?thesis by (rule mult_mod_inj)
  qed
  then have "drop_bit m s = drop_bit m s'" by simp
  then show ?thesis using lo by (rule idx_eqI)
qed

lemma sum_nonzero_term:
  fixes h :: "nat \<Rightarrow> complex"
  assumes "(\<Sum>s<L. h s) \<noteq> 0"
  shows "\<exists>s<L. h s \<noteq> 0"
proof (rule ccontr)
  assume "\<not> (\<exists>s<L. h s \<noteq> 0)"
  then have "(\<Sum>s<L. h s) = 0" by (intro sum.neutral) auto
  with assms show False by simp
qed

lemma mul_support:
  assumes n: "qn st = 3 * k" and len: "length (qa st) = 2 ^ (3 * k)"
    and N: "0 < N" "N \<le> 2 ^ k"
    and sup: "second_reg_below (2 * k) N (qa st)"
    and res: "mul st con a N = Some st'"
  shows "second_reg_below (2 * k) N (qa st')"
proof -
  let ?v = "a ^ (2 ^ Suc con) mod N"
  have v0: "0 \<le> ?v" using N(1) by simp
  from mul_result [OF n len N, of con a] res
  have l': "length (qa st') = 2 ^ (3 * k)"
    and g: "\<forall>t<2 ^ (3 * k). qa st' ! t =
        (\<Sum>s<2 ^ (3 * k). if mul_target (2 * k) con ?v N s = t then qa st ! s else 0)"
    by auto
  show ?thesis
    unfolding second_reg_below_def
  proof (intro allI impI)
    fix t assume t: "t < length (qa st')" and nz: "qa st' ! t \<noteq> 0"
    from t l' g nz have "(\<Sum>s<2 ^ (3 * k). if mul_target (2 * k) con ?v N s = t then qa st ! s else 0) \<noteq> 0"
      by simp
    from sum_nonzero_term [OF this] obtain s where s: "s < 2 ^ (3 * k)"
      "mul_target (2 * k) con ?v N s = t" "qa st ! s \<noteq> 0"
      by (auto split: if_splits)
    from sup s(1,3) len have below: "int (drop_bit (2 * k) s) < N"
      by (simp add: second_reg_below_def)
    have "int (drop_bit (2 * k) t) =
        (if bit s con then mul_transform ?v N (int (drop_bit (2 * k) s)) else int (drop_bit (2 * k) s))"
      using mul_target_high [OF N(1) v0, of "2 * k" con s] s(2) by simp
    moreover have "mul_transform ?v N (int (drop_bit (2 * k) s)) < N"
      using mul_transform_range [OF N(1) v0, of "int (drop_bit (2 * k) s)"] by simp
    ultimately show "int (drop_bit (2 * k) t) < N" using below by simp
  qed
qed

lemma mul_normsq:
  assumes n: "qn st = 3 * k" and len: "length (qa st) = 2 ^ (3 * k)"
    and N: "0 < N" "N \<le> 2 ^ k"
    and cop: "coprime a N" and con: "con < 2 * k"
    and sup: "second_reg_below (2 * k) N (qa st)"
  shows "\<exists>st'. mul st con a N = Some st' \<and> qn st' = qn st \<and> length (qa st') = 2 ^ (3 * k) \<and>
     normsq (qa st') = normsq (qa st)"
proof -
  let ?v = "a ^ (2 ^ Suc con) mod N"
  let ?L = "(2::nat) ^ (3 * k)"
  let ?f = "mul_target (2 * k) con ?v N"
  have v: "coprime ?v N" "0 \<le> ?v"
    using multiplier_coprime [OF cop N(1), of "2 ^ Suc con"] by simp_all
  from mul_result [OF n len N, of con a]
  obtain st' where st': "mul st con a N = Some st'" "qn st' = qn st" "length (qa st') = ?L"
    and g: "\<forall>t<?L. qa st' ! t = (\<Sum>s<?L. if ?f s = t then qa st ! s else 0)"
    by blast
  have inj: "s = s'" if "s < ?L" "s' < ?L" "qa st ! s \<noteq> 0" "qa st ! s' \<noteq> 0" "?f s = ?f s'" for s s'
  proof -
    from sup that(1,3) len have a: "int (drop_bit (2 * k) s) < N"
      by (simp add: second_reg_below_def)
    from sup that(2,4) len have b: "int (drop_bit (2 * k) s') < N"
      by (simp add: second_reg_below_def)
    from N(1) v(2) v(1) con a b that(5) show ?thesis by (rule mul_target_inj)
  qed
  have rng: "?f s < ?L" if "s < ?L" for s
  proof (cases "bit s con")
    case False
    with that show ?thesis by (simp add: mul_target_def)
  next
    case True
    let ?w = "mul_transform ?v N (int (drop_bit (2 * k) s))"
    have "0 \<le> ?w \<and> ?w < N"
      using mul_transform_range [OF N(1) v(2), of "int (drop_bit (2 * k) s)"] by simp
    with N(2) have "?w < 2 ^ k" "0 \<le> ?w" by simp_all
    then have "nat ?w < 2 ^ k" by (simp add: nat_less_iff)
    then have "push_bit (2 * k) (nat ?w) OR take_bit (2 * k) s < 2 ^ (2 * k + k)"
      by (rule idx_bound)
    with True show ?thesis by (simp add: mul_target_def)
  qed
  have "normsq (qa st') = (\<Sum>t<?L. (cmod (qa st' ! t))\<^sup>2)"
    by (simp add: normsq_sum st'(3))
  also have "\<dots> = (\<Sum>t<?L. (cmod (\<Sum>s<?L. if ?f s = t then qa st ! s else 0))\<^sup>2)"
    by (rule sum.cong) (use g in auto)
  also have "\<dots> = (\<Sum>s<?L. (cmod (qa st ! s))\<^sup>2)"
    by (rule scatter_norm) (use inj rng in blast)+
  also have "\<dots> = normsq (qa st)"
    by (simp add: normsq_sum len)
  finally show ?thesis using st' by blast
qed

subsection \<open>The width of the second register\<close>

lemma find_n_ge: "N \<le> 2 ^ find_n n N"
proof (induction n N rule: find_n.induct)
  case (1 n N)
  show ?case
  proof (cases "2 ^ n < N")
    case True
    with 1 show ?thesis by (subst find_n.simps) simp
  next
    case False
    then show ?thesis by (subst find_n.simps) simp
  qed
qed

lemma find_n_15: "find_n 0 15 = 4"
  by (simp add: find_n.simps)

text \<open>The 12-qubit basis state with index \<open>257 = 1 * 2 ^ 8 + 1\<close>, for \<open>N = 15\<close>.\<close>

lemma normsq_single: "i < L \<Longrightarrow> normsq ((replicate L 0)[i := 1]) = 1"
proof -
  assume i: "i < L"
  have "normsq ((replicate L 0)[i := 1])
      = (\<Sum>t<L. (cmod ((replicate L (0::complex))[i := 1] ! t))\<^sup>2)"
    by (simp add: normsq_sum)
  also have "\<dots> = (\<Sum>t<L. if t = i then 1 else 0)"
    by (rule sum.cong) (auto simp add: nth_list_update)
  also have "\<dots> = 1" using i by simp
  finally show ?thesis .
qed

lemma single_below:
  "int (drop_bit m i) < N \<Longrightarrow> second_reg_below m N ((replicate L 0)[i := x])"
proof -
  assume b: "int (drop_bit m i) < N"
  have "int (drop_bit m s) < N"
    if "s < L" "(replicate L (0::complex))[i := x] ! s \<noteq> 0" for s
  proof (cases "s = i")
    case True
    with b show ?thesis by simp
  next
    case False
    with that show ?thesis by simp
  qed
  then show ?thesis by (simp add: second_reg_below_def)
qed

lemma basis_257:
  "wf_state \<lparr>qn = 12, qa = (replicate 4096 0)[257 := 1]\<rparr> \<and>
   normsq (qa \<lparr>qn = 12, qa = (replicate 4096 0)[257 := 1]\<rparr>) = 1 \<and>
   qn \<lparr>qn = 12, qa = (replicate 4096 0)[257 := 1]\<rparr> = 3 * find_n 0 15 \<and>
   second_reg_below (2 * find_n 0 15) 15 (qa \<lparr>qn = 12, qa = (replicate 4096 0)[257 := 1]\<rparr>)"
proof -
  have "int (drop_bit 8 (257::nat)) < 15" by (simp add: drop_bit_eq_div)
  then have "second_reg_below 8 15 ((replicate 4096 (0::complex))[257 := 1])"
    by (rule single_below)
  then show ?thesis
    by (simp add: wf_state_def normsq_single find_n_15)
qed

lemma mul_basis_257:
  "\<exists>st'. mul \<lparr>qn = 12, qa = (replicate 4096 0)[257 := 1]\<rparr> 0 2 15 = Some st' \<and>
         qa st' ! 1025 = 1 \<and> qa st' ! 257 = 0"
proof -
  let ?v = "(replicate 4096 (0::complex))[257 := 1]"
  let ?st = "\<lparr>qn = 12, qa = ?v\<rparr>"
  let ?f = "mul_target (2 * 4) 0 (2 ^ (2 ^ Suc 0) mod 15) 15"
  have a: "qn ?st = 3 * 4" by simp
  have b: "length (qa ?st) = 2 ^ (3 * 4)" by simp
  from mul_result [OF a b, of 15 0 2]
  obtain st' where st': "mul ?st 0 2 15 = Some st'"
    and g: "\<forall>t<2 ^ (3 * 4). qa st' ! t = (\<Sum>s<2 ^ (3 * 4). if ?f s = t then qa ?st ! s else 0)"
    by auto
  have f: "?f 257 = 1025"
    by (simp add: mul_target_def mul_transform_def drop_bit_eq_div take_bit_eq_mod
        signed_modulo_int_def bit_0)
  have val: "qa st' ! t = (if ?f 257 = t then 1 else 0)" if t: "t < 4096" for t
  proof -
    have "qa st' ! t = (\<Sum>s<4096. if ?f s = t then ?v ! s else 0)"
      using g t by (simp cong: if_cong)
    also have "\<dots> = (\<Sum>s\<in>{257}. if ?f s = t then ?v ! s else 0)"
      by (rule sum.mono_neutral_right) (auto simp add: nth_list_update)
    also have "\<dots> = (if ?f 257 = t then 1 else 0)" by simp
    finally show ?thesis .
  qed
  have "qa st' ! 1025 = 1" using val [of 1025] f by simp
  moreover have "qa st' ! 257 = 0" using val [of 257] f by simp
  ultimately show ?thesis using st' by blast
qed

text \<open>
  C3, as amended.  For every \<open>N > 1\<close>, every base \<open>a\<close> coprime to \<open>N\<close> and every control
  index \<open>i\<close>, the multiplier \<open>v = power(a, 2 ^ i, N)\<close> exists and the transform
  \<open>value \<mapsto> value * v mod N\<close> is a bijection on \<open>[0, N)\<close>.  For a state of \<open>3n\<close> qubits
  (\<open>n = find_n 0 N\<close> the width of the second register; such a state exists for
  \<open>N \<le> 1024\<close>) and a control \<open>i\<close> of the first register, \<open>mul\<close> preserves the norm of every
  amplitude vector whose nonzero entries have a second-register value below \<open>N\<close>.
\<close>

theorem mul_transform_bijection_below_N:
  assumes "1 < N" and "coprime a N"
  shows "\<exists>v. power_ll a (2 ^ i) N = Some v \<and>
           bij_betw (mul_transform v N) {0..<N} {0..<N} \<and>
           (\<forall>st. wf_state st \<and> qn st = 3 * find_n 0 N \<and> i < 2 * find_n 0 N \<and>
                 second_reg_below (2 * find_n 0 N) N (qa st) \<longrightarrow>
                 (\<exists>st'. mul st i a N = Some st' \<and> normsq (qa st') = normsq (qa st)))"
proof -
  let ?k = "find_n 0 N"
  let ?v = "a ^ (2 ^ Suc i) mod N"
  from assms(1) have N: "0 < N" by simp
  have pw: "power_ll a (2 ^ i) N = Some ?v" using N by (rule power_ll_pow2)
  have v: "coprime ?v N" "0 \<le> ?v"
    using multiplier_coprime [OF assms(2) N, of "2 ^ Suc i"] by simp_all
  have bij: "bij_betw (mul_transform ?v N) {0..<N} {0..<N}"
    using N v(2) v(1) by (rule mul_transform_bij)
  have nrm: "\<exists>st'. mul st i a N = Some st' \<and> normsq (qa st') = normsq (qa st)"
    if h: "wf_state st" "qn st = 3 * ?k" "i < 2 * ?k" "second_reg_below (2 * ?k) N (qa st)"
    for st
  proof -
    have len: "length (qa st) = 2 ^ (3 * ?k)"
      using h(1,2) by (simp add: wf_state_def)
    from mul_normsq [OF h(2) len N find_n_ge assms(2) h(3) h(4)]
    show ?thesis by blast
  qed
  from pw bij nrm show ?thesis by blast
qed

theorem mul_transform_bijection_below_N_witness:
  "(1::int) < 15 \<and> coprime (2::int) 15 \<and>
   wf_state \<lparr>qn = 12, qa = (replicate 4096 0)[257 := 1]\<rparr> \<and>
   qn \<lparr>qn = 12, qa = (replicate 4096 0)[257 := 1]\<rparr> = 3 * find_n 0 15 \<and>
   0 < 2 * find_n 0 15 \<and>
   second_reg_below (2 * find_n 0 15) 15 (qa \<lparr>qn = 12, qa = (replicate 4096 0)[257 := 1]\<rparr>) \<and>
   bit (257::nat) 0 \<and>
   (\<exists>v. power_ll 2 (2 ^ 0) 15 = Some v \<and> v = 4 \<and>
        bij_betw (mul_transform v 15) {0..<15} {0..<15} \<and>
        (\<exists>st'. mul \<lparr>qn = 12, qa = (replicate 4096 0)[257 := 1]\<rparr> 0 2 15 = Some st' \<and>
           normsq (qa st') = normsq (qa \<lparr>qn = 12, qa = (replicate 4096 0)[257 := 1]\<rparr>) \<and>
           qa st' ! 1025 = 1 \<and> qa st' ! 257 = 0))"
proof -
  let ?st = "\<lparr>qn = 12, qa = (replicate 4096 (0::complex))[257 := 1]\<rparr>"
  have h1: "(1::int) < 15" by simp
  have h2: "coprime (2::int) 15"
  proof -
    have "gcd (2::int) 15 = 1" by (simp add: gcd_non_0_int)
    then show ?thesis by (simp only: coprime_iff_gcd_eq_1)
  qed
  have h3: "wf_state ?st" and h4: "qn ?st = 3 * find_n 0 15"
    and h6: "second_reg_below (2 * find_n 0 15) 15 (qa ?st)"
    using basis_257 by blast+
  have h5: "0 < 2 * find_n 0 15" by (simp add: find_n_15)
  have h7: "bit (257::nat) 0" by (simp add: bit_0)
  from mul_transform_bijection_below_N [OF h1 h2, of 0]
  obtain v where pw: "power_ll 2 (2 ^ 0) 15 = Some v"
    and bij: "bij_betw (mul_transform v 15) {0..<15} {0..<15}"
    and all: "\<forall>st. wf_state st \<and> qn st = 3 * find_n 0 15 \<and> 0 < 2 * find_n 0 15 \<and>
                 second_reg_below (2 * find_n 0 15) 15 (qa st) \<longrightarrow>
                 (\<exists>st'. mul st 0 2 15 = Some st' \<and> normsq (qa st') = normsq (qa st))"
    by blast
  have "power_ll 2 (2 ^ 0) 15 = Some 4"
    by (simp add: power_ll_def power_loop_step power_loop_zero signed_modulo_int_def)
  with pw have v4: "v = 4" by simp
  from all h3 h4 h5 h6 obtain st' where
    m: "mul ?st 0 2 15 = Some st'" "normsq (qa st') = normsq (qa ?st)"
    by blast
  from mul_basis_257 m(1) have e: "qa st' ! 1025 = 1" "qa st' ! 257 = 0" by auto
  show ?thesis
    apply (intro conjI)
    apply (rule h1, rule h2, rule h3, rule h4, rule h5, rule h6, rule h7)
    apply (rule exI [of _ v])
    apply (intro conjI)
    apply (rule pw, rule v4, rule bij)
    apply (rule exI [of _ st'])
    apply (intro conjI)
    apply (rule m(1), rule m(2), rule e(1), rule e(2))
    done
qed

subsection \<open>Measurement\<close>

lemma bit_c: "drop_bit p s AND 1 = (if bit (s::nat) p then 1 else 0)"
  by (simp add: and_one_eq bit_iff_odd_drop_bit mod_2_eq_odd)

lemma xor_bit_neq: "c < 2 \<Longrightarrow> d < 2 \<Longrightarrow> (c XOR d \<noteq> 0) = (c \<noteq> (d::nat))"
proof -
  assume "c < 2" "d < 2"
  then have "(c = 0 \<or> c = 1) \<and> (d = 0 \<or> d = 1)" by auto
  then show ?thesis by auto
qed

lemma for_each_pro:
  assumes "\<And>s. s \<in> set ss \<Longrightarrow> s < length a"
  shows "for_each ss
           (\<lambda>s (p0, p1).
                case get_at a s of None \<Rightarrow> None
                | Some x \<Rightarrow>
                    Some (if drop_bit p s AND 1 = 1 then (p0, p1 + (cmod x)\<^sup>2)
                          else (p0 + (cmod x)\<^sup>2, p1)))
           (q0, q1)
       = Some (q0 + (\<Sum>s\<leftarrow>ss. if (if bit s p then 1 else 0) = (0::nat) then (cmod (a ! s))\<^sup>2 else 0),
               q1 + (\<Sum>s\<leftarrow>ss. if (if bit s p then 1 else 0) = (1::nat) then (cmod (a ! s))\<^sup>2 else 0))"
  using assms
proof (induction ss arbitrary: q0 q1)
  case Nil
  then show ?case by simp
next
  case (Cons s ss)
  have s: "get_at a s = Some (a ! s)" using Cons.prems by (simp add: get_at_def)
  show ?case
  proof (cases "bit s p")
    case True
    have "for_each ss
           (\<lambda>s (p0, p1).
                case get_at a s of None \<Rightarrow> None
                | Some x \<Rightarrow>
                    Some (if drop_bit p s AND 1 = 1 then (p0, p1 + (cmod x)\<^sup>2)
                          else (p0 + (cmod x)\<^sup>2, p1)))
           (q0, q1 + (cmod (a ! s))\<^sup>2)
       = Some (q0 + (\<Sum>s\<leftarrow>ss. if (if bit s p then 1 else 0) = (0::nat) then (cmod (a ! s))\<^sup>2 else 0),
               q1 + (cmod (a ! s))\<^sup>2 + (\<Sum>s\<leftarrow>ss. if (if bit s p then 1 else 0) = (1::nat) then (cmod (a ! s))\<^sup>2 else 0))"
      by (rule Cons.IH) (use Cons.prems in auto)
    with True s show ?thesis unfolding bit_c by (simp add: add.assoc)
  next
    case False
    have "for_each ss
           (\<lambda>s (p0, p1).
                case get_at a s of None \<Rightarrow> None
                | Some x \<Rightarrow>
                    Some (if drop_bit p s AND 1 = 1 then (p0, p1 + (cmod x)\<^sup>2)
                          else (p0 + (cmod x)\<^sup>2, p1)))
           (q0 + (cmod (a ! s))\<^sup>2, q1)
       = Some (q0 + (cmod (a ! s))\<^sup>2 + (\<Sum>s\<leftarrow>ss. if (if bit s p then 1 else 0) = (0::nat) then (cmod (a ! s))\<^sup>2 else 0),
               q1 + (\<Sum>s\<leftarrow>ss. if (if bit s p then 1 else 0) = (1::nat) then (cmod (a ! s))\<^sup>2 else 0))"
      by (rule Cons.IH) (use Cons.prems in auto)
    with False s show ?thesis unfolding bit_c by (simp add: add.assoc)
  qed
qed

lemma for_each_set:
  assumes "\<And>s b. s \<in> set ss \<Longrightarrow> length b = L \<Longrightarrow> step s b = set_at s (h s) b"
    and "\<And>s. s \<in> set ss \<Longrightarrow> s < L"
    and "length b = L"
  shows "\<exists>b'. for_each ss step b = Some b' \<and> length b' = L \<and>
           (\<forall>t<L. b' ! t = (if t \<in> set ss then h t else b ! t))"
  using assms
proof (induction ss arbitrary: b)
  case Nil
  then show ?case by simp
next
  case (Cons s ss)
  let ?b1 = "b[s := h s]"
  have sL: "s < L" using Cons.prems(2) by simp
  have step: "step s b = Some ?b1"
    using Cons.prems(1) [of s b] Cons.prems(3) sL by (simp add: set_at_def)
  have "\<exists>b'. for_each ss step ?b1 = Some b' \<and> length b' = L \<and>
           (\<forall>t<L. b' ! t = (if t \<in> set ss then h t else ?b1 ! t))"
    by (rule Cons.IH) (use Cons.prems in auto)
  then obtain b' where b': "for_each ss step ?b1 = Some b'" "length b' = L"
    "\<forall>t<L. b' ! t = (if t \<in> set ss then h t else ?b1 ! t)"
    by blast
  have "\<forall>t<L. b' ! t = (if t \<in> set (s # ss) then h t else b ! t)"
    using b'(3) Cons.prems(3) sL by (auto simp add: nth_list_update)
  with b'(1,2) step show ?case by simp
qed

lemma measure_result:
  assumes len: "length (qa st) = 2 ^ qn st"
    and d_def: "d = (if u < marginal p 1 (qa st) then 1 else 0 :: nat)"
  shows "\<exists>st'. measure_qubit p u st = Some (d, st') \<and> qn st' = qn st \<and>
           length (qa st') = 2 ^ qn st \<and>
           (\<forall>t<2 ^ qn st. qa st' ! t =
              (if (if bit t p then 1 else 0) = d
               then qa st ! t / complex_of_real (sqrt (marginal p d (qa st))) else 0))"
proof -
  define L :: nat where "L = 2 ^ qn st"
  define coef where "coef = sqrt (marginal p d (qa st))"
  define step where "step = (\<lambda>s b.
                        let c = drop_bit p s AND 1 in
                        if c XOR d \<noteq> 0 then set_at s 0 b
                        else (case get_at (qa st) s of None \<Rightarrow> None
                              | Some x \<Rightarrow> set_at s (x / complex_of_real coef) b))"
  have l1: "for_each [0..<2 ^ qn st]
             (\<lambda>s (p0, p1).
                case get_at (qa st) s of None \<Rightarrow> None
                | Some x \<Rightarrow>
                    Some (if drop_bit p s AND 1 = 1 then (p0, p1 + (cmod x)\<^sup>2)
                          else (p0 + (cmod x)\<^sup>2, p1)))
             (0, 0) = Some (marginal p 0 (qa st), marginal p 1 (qa st))"
    by (subst for_each_pro) (simp_all add: len marginal_def sum_list_upt_sum)
  have d2: "d < 2" by (simp add: d_def)
  have unfold: "measure_qubit p u st =
      (case for_each [0..<L] step (replicate L 0) of None \<Rightarrow> None
       | Some b \<Rightarrow> Some (d, st\<lparr>qa := b\<rparr>))"
    unfolding measure_qubit_def Let_def pow2_S l1 option.case prod.case step_def L_def
      coef_def d_def
    by simp
  have stepeq: "step s b = set_at s (if (if bit s p then 1 else 0) = d
               then qa st ! s / complex_of_real coef else 0) b"
    if "s \<in> set [0..<L]" "length b = L" for s b
  proof -
    from that(1) have s: "s < length (qa st)" by (simp add: len L_def)
    have c2: "(if bit s p then 1 else 0 :: nat) < 2" by simp
    show ?thesis
      unfolding step_def Let_def bit_c xor_bit_neq [OF c2 d2]
      by (simp add: get_at_Some [OF s])
  qed
  from for_each_set [of "[0..<L]" L step _ "replicate L 0", OF stepeq]
  obtain b' where b': "for_each [0..<L] step (replicate L 0) = Some b'" "length b' = L"
    "\<forall>t<L. b' ! t = (if t \<in> set [0..<L]
         then (if (if bit t p then 1 else 0) = d then qa st ! t / complex_of_real coef else 0)
         else replicate L 0 ! t)"
    by auto
  with unfold show ?thesis by (simp add: L_def coef_def)
qed


lemma marginal_sum: "marginal p 0 v + marginal p 1 v = normsq v"
proof -
  have "marginal p 0 v + marginal p 1 v =
      (\<Sum>s<length v. (if (if bit s p then 1 else 0) = (0::nat) then (cmod (v ! s))\<^sup>2 else 0)
          + (if (if bit s p then 1 else 0) = (1::nat) then (cmod (v ! s))\<^sup>2 else 0))"
    unfolding marginal_def by (rule sum.distrib [symmetric])
  also have "\<dots> = (\<Sum>s<length v. (cmod (v ! s))\<^sup>2)"
    by (rule sum.cong) auto
  finally show ?thesis by (simp add: normsq_sum)
qed

lemma cmod_div_sqrt: "0 < r \<Longrightarrow> (cmod (z / complex_of_real (sqrt r)))\<^sup>2 = (cmod z)\<^sup>2 / r"
  by (simp add: norm_divide power_divide)

lemma measure_unit:
  assumes len: "length (qa st) = 2 ^ qn st" and unit: "normsq (qa st) = 1"
    and u: "0 \<le> u" "u < 1"
    and d_def: "d = (if u < marginal p 1 (qa st) then 1 else 0 :: nat)"
  shows "\<exists>st'. measure_qubit p u st = Some (d, st') \<and> qn st' = qn st \<and>
           length (qa st') = 2 ^ qn st \<and> 0 < marginal p d (qa st) \<and>
           (\<forall>t<2 ^ qn st. qa st' ! t =
              (if (if bit t p then 1 else 0) = d
               then qa st ! t / complex_of_real (sqrt (marginal p d (qa st))) else 0)) \<and>
           marginal p (1 - d) (qa st') = 0 \<and> normsq (qa st') = 1"
proof -
  let ?pd = "marginal p d (qa st)"
  from measure_result [OF len d_def]
  obtain st' where st': "measure_qubit p u st = Some (d, st')" "qn st' = qn st"
    "length (qa st') = 2 ^ qn st"
    and g: "\<forall>t<2 ^ qn st. qa st' ! t =
              (if (if bit t p then 1 else 0) = d
               then qa st ! t / complex_of_real (sqrt ?pd) else 0)"
    by blast
  have s1: "marginal p 0 (qa st) + marginal p 1 (qa st) = 1"
    using marginal_sum [of p "qa st"] unit by simp
  have pos: "0 < ?pd"
  proof (cases "u < marginal p 1 (qa st)")
    case True
    with u(1) d_def show ?thesis by simp
  next
    case False
    with s1 u(2) d_def show ?thesis by simp
  qed
  have d2: "d = 0 \<or> d = 1" by (simp add: d_def)
  have opp: "marginal p (1 - d) (qa st') = 0"
    unfolding marginal_def
  proof (rule sum.neutral, rule ballI)
    fix s assume "s \<in> {..<length (qa st')}"
    then have s: "s < 2 ^ qn st" by (simp add: st'(3))
    show "(if (if bit s p then 1 else 0) = 1 - d then (cmod (qa st' ! s))\<^sup>2 else 0) = 0"
      using g s d2 by auto
  qed
  have "normsq (qa st') = (\<Sum>t<2 ^ qn st. (cmod (qa st' ! t))\<^sup>2)"
    by (simp add: normsq_sum st'(3))
  also have "\<dots> = (\<Sum>t<2 ^ qn st. (if (if bit t p then 1 else 0) = d
        then (cmod (qa st ! t))\<^sup>2 else 0) / ?pd)"
    by (rule sum.cong) (use g pos in \<open>auto simp add: cmod_div_sqrt\<close>)
  also have "\<dots> = ?pd / ?pd"
    by (simp add: sum_divide_distrib [symmetric] marginal_def len)
  also have "\<dots> = 1" using pos by simp
  finally have "normsq (qa st') = 1" .
  with st' g pos opp show ?thesis by blast
qed

text \<open>
  C4.  For a state of unit norm, a qubit \<open>p\<close> of the register and a draw \<open>u\<close> in \<open>[0, 1)\<close>,
  \<open>measure(p)\<close> returns an outcome \<open>d\<close> that is 1 exactly when \<open>u < 1 - p0\<close>; the outcome has a
  positive probability; every amplitude whose bit \<open>p\<close> differs from \<open>d\<close> is zero afterwards and
  every other one is divided by \<open>sqrt(pro[d])\<close>; the marginal probability of the opposite
  outcome on the new state is 0 (and its norm is 1 again).
\<close>

theorem measure_collapse:
  assumes "wf_state st" and "normsq (qa st) = 1" and "p < qn st" and "0 \<le> u" and "u < 1"
  shows "\<exists>d st'. measure_qubit p u st = Some (d, st') \<and> d < 2 \<and>
           (d = 1 \<longleftrightarrow> u < 1 - marginal p 0 (qa st)) \<and>
           wf_state st' \<and> qn st' = qn st \<and> 0 < marginal p d (qa st) \<and>
           (\<forall>s<2 ^ qn st. qa st' ! s =
              (if (if bit s p then 1 else 0) = d
               then qa st ! s / complex_of_real (sqrt (marginal p d (qa st))) else 0)) \<and>
           marginal p (1 - d) (qa st') = 0 \<and> normsq (qa st') = 1"
proof -
  define d where "d = (if u < marginal p 1 (qa st) then 1 else 0 :: nat)"
  have len: "length (qa st) = 2 ^ qn st" using assms(1) by (simp add: wf_state_def)
  from measure_unit [OF len assms(2) assms(4) assms(5) d_def]
  obtain st' where st': "measure_qubit p u st = Some (d, st')" "qn st' = qn st"
    "length (qa st') = 2 ^ qn st" "0 < marginal p d (qa st)"
    "\<forall>t<2 ^ qn st. qa st' ! t =
              (if (if bit t p then 1 else 0) = d
               then qa st ! t / complex_of_real (sqrt (marginal p d (qa st))) else 0)"
    "marginal p (1 - d) (qa st') = 0" "normsq (qa st') = 1"
    by blast
  have "marginal p 1 (qa st) = 1 - marginal p 0 (qa st)"
    using marginal_sum [of p "qa st"] assms(2) by simp
  then have a: "d = 1 \<longleftrightarrow> u < 1 - marginal p 0 (qa st)" by (simp add: d_def)
  have b: "d < 2" by (simp add: d_def)
  have c: "wf_state st'" using assms(1) st'(2,3) by (simp add: wf_state_def)
  from st' a b c show ?thesis by blast
qed

theorem measure_collapse_witness:
  "wf_state \<lparr>qn = 1, qa = [3 / 5, 4 / 5]\<rparr> \<and> normsq (qa \<lparr>qn = 1, qa = [3 / 5, 4 / 5]\<rparr>) = 1 \<and>
   (0::nat) < qn \<lparr>qn = 1, qa = [3 / 5, 4 / 5]\<rparr> \<and> (0::real) \<le> 1 / 2 \<and> (1 / 2 :: real) < 1 \<and>
   (\<exists>d st'. measure_qubit 0 (1 / 2) \<lparr>qn = 1, qa = [3 / 5, 4 / 5]\<rparr> = Some (d, st') \<and> d < 2 \<and>
      marginal 0 (1 - d) (qa st') = 0 \<and> normsq (qa st') = 1)"
proof -
  let ?st = "\<lparr>qn = 1, qa = [3 / 5, 4 / 5 :: complex]\<rparr>"
  have h1: "wf_state ?st" by (simp add: wf_state_def)
  have h2: "normsq (qa ?st) = 1" by (simp add: normsq_def power2_eq_square)
  have h3: "0 < qn ?st" by simp
  have h4: "(0::real) \<le> 1 / 2" by simp
  have h5: "(1 / 2 :: real) < 1" by simp
  from measure_collapse [OF h1 h2 h3 h4 h5] h1 h2 h3 h4 h5
  show ?thesis by blast
qed

text \<open>
  C8.  The claim is that \<open>measure(p)\<close> aborts when the outcome drawn has probability zero.
  \<open>measure\<close> has no check and no exit but \<open>return d\<close>: on the state \<open>(0, 1/2)\<close> (not of unit
  norm, as the states that \<open>QFT\<close> leaves) with the draw \<open>u = 1/2\<close> the outcome is \<open>0\<close>, its
  probability is \<open>0\<close>, and a state is returned.
\<close>

theorem measure_zero_probability_no_abort:
  "marginal 0 0 (qa \<lparr>qn = 1, qa = [0, 1 / 2]\<rparr>) = 0 \<and>
   map_option fst (measure_qubit 0 (1 / 2) \<lparr>qn = 1, qa = [0, 1 / 2]\<rparr>) = Some 0 \<and>
   measure_qubit 0 (1 / 2) \<lparr>qn = 1, qa = [0, 1 / 2]\<rparr> \<noteq> None"
  by (simp add: marginal_def measure_qubit_def upt_small get_at_def set_at_def
      lessThan_Suc power2_eq_square norm_divide bit_0)

text \<open>
  C8, as amended.  \<open>measure(p)\<close> returns an outcome and a state of the same size for every
  well-formed state and every draw.  When the outcome has probability zero, the outcome is
  \<open>0\<close>, the draw was not below \<open>pro[1]\<close>, and every amplitude whose bit \<open>p\<close> is set is zero in
  the state returned; at the other indices the old amplitude is zero and so is the divisor
  \<open>coef = sqrt(pro[0])\<close>, and nothing is stated of the new amplitude there.
\<close>

theorem measure_zero_probability_returns:
  assumes "wf_state st" and "0 \<le> u"
  shows "\<exists>d st'. measure_qubit p u st = Some (d, st') \<and> wf_state st' \<and> qn st' = qn st \<and>
           length (qa st') = length (qa st) \<and>
           (marginal p d (qa st) = 0 \<longrightarrow>
              d = 0 \<and> marginal p 1 (qa st) \<le> u \<and> sqrt (marginal p 0 (qa st)) = 0 \<and>
              (\<forall>s<length (qa st'). bit s p \<longrightarrow> qa st' ! s = 0) \<and>
              (\<forall>s<length (qa st). \<not> bit s p \<longrightarrow> qa st ! s = 0))"
proof -
  define d where "d = (if u < marginal p 1 (qa st) then 1 else 0 :: nat)"
  have len: "length (qa st) = 2 ^ qn st" using assms(1) by (simp add: wf_state_def)
  from measure_result [OF len d_def]
  obtain st' where st': "measure_qubit p u st = Some (d, st')" "qn st' = qn st"
    "length (qa st') = 2 ^ qn st"
    and g: "\<forall>t<2 ^ qn st. qa st' ! t =
              (if (if bit t p then 1 else 0) = d
               then qa st ! t / complex_of_real (sqrt (marginal p d (qa st))) else 0)"
    by blast
  have wf: "wf_state st'" using assms(1) st'(2,3) by (simp add: wf_state_def)
  have l': "length (qa st') = length (qa st)" using st'(3) len by simp
  have "d = 0 \<and> marginal p 1 (qa st) \<le> u \<and> sqrt (marginal p 0 (qa st)) = 0 \<and>
      (\<forall>s<length (qa st'). bit s p \<longrightarrow> qa st' ! s = 0) \<and>
      (\<forall>s<length (qa st). \<not> bit s p \<longrightarrow> qa st ! s = 0)"
    if z: "marginal p d (qa st) = 0"
  proof -
    have d0: "d = 0 \<and> marginal p 1 (qa st) \<le> u"
    proof (cases "u < marginal p 1 (qa st)")
      case True
      with assms(2) z d_def show ?thesis by simp
    next
      case False
      then show ?thesis by (simp add: d_def)
    qed
    with z have z0: "marginal p 0 (qa st) = 0" by simp
    have old: "qa st ! s = 0" if s: "s < length (qa st)" and b: "\<not> bit s p" for s
    proof -
      have "(\<Sum>s<length (qa st).
               if (if bit s p then 1 else 0) = (0::nat) then (cmod (qa st ! s))\<^sup>2 else 0) = 0"
        using z0 by (simp only: marginal_def)
      then have "\<forall>s\<in>{..<length (qa st)}.
          (if (if bit s p then 1 else 0) = (0::nat) then (cmod (qa st ! s))\<^sup>2 else 0) = 0"
        by (subst (asm) sum_nonneg_eq_0_iff) simp_all
      with s have "(if (if bit s p then 1 else 0) = (0::nat) then (cmod (qa st ! s))\<^sup>2 else 0) = 0"
        by simp
      with b show ?thesis by simp
    qed
    have set: "qa st' ! s = 0" if s: "s < length (qa st')" and b: "bit s p" for s
    proof -
      from s st'(3) have "s < 2 ^ qn st" by simp
      with g have "qa st' ! s =
              (if (if bit s p then 1 else 0) = d
               then qa st ! s / complex_of_real (sqrt (marginal p d (qa st))) else 0)"
        by blast
      with b d0 show ?thesis by simp
    qed
    from d0 z0 old set show ?thesis by simp
  qed
  with st'(1,2) wf l' show ?thesis by blast
qed

theorem measure_zero_probability_returns_witness:
  "wf_state \<lparr>qn = 1, qa = [0, 1 / 2]\<rparr> \<and> (0::real) \<le> 1 / 2 \<and>
   (\<exists>d st'. measure_qubit 0 (1 / 2) \<lparr>qn = 1, qa = [0, 1 / 2]\<rparr> = Some (d, st') \<and>
      wf_state st' \<and> qn st' = 1 \<and> length (qa st') = 2 \<and>
      marginal 0 d (qa \<lparr>qn = 1, qa = [0, 1 / 2]\<rparr>) = 0 \<and> d = 0 \<and>
      sqrt (marginal 0 0 (qa \<lparr>qn = 1, qa = [0, 1 / 2]\<rparr>)) = 0 \<and>
      qa st' ! 1 = 0 \<and> qa \<lparr>qn = 1, qa = [0, 1 / 2]\<rparr> ! 0 = 0)"
proof -
  let ?st = "\<lparr>qn = 1, qa = [0, 1 / 2 :: complex]\<rparr>"
  have h1: "wf_state ?st" by (simp add: wf_state_def)
  have h2: "(0::real) \<le> 1 / 2" by simp
  from measure_zero_probability_returns [OF h1 h2, of 0]
  obtain d st' where r: "measure_qubit 0 (1 / 2) ?st = Some (d, st')" "wf_state st'"
    "qn st' = qn ?st" "length (qa st') = length (qa ?st)"
    and c: "marginal 0 d (qa ?st) = 0 \<longrightarrow>
       d = 0 \<and> marginal 0 1 (qa ?st) \<le> 1 / 2 \<and> sqrt (marginal 0 0 (qa ?st)) = 0 \<and>
       (\<forall>s<length (qa st'). bit s 0 \<longrightarrow> qa st' ! s = 0) \<and>
       (\<forall>s<length (qa ?st). \<not> bit s 0 \<longrightarrow> qa ?st ! s = 0)"
    by blast
  have "map_option fst (measure_qubit 0 (1 / 2) ?st) = Some 0"
    by (simp add: measure_qubit_def upt_small get_at_def set_at_def power2_eq_square norm_divide)
  with r(1) have d: "d = 0" by simp
  have z: "marginal 0 0 (qa ?st) = 0"
    by (simp add: marginal_def lessThan_Suc bit_0)
  from r(4) have l2: "length (qa st') = 2" by simp
  from c d z have all1: "\<forall>s<length (qa st'). bit s 0 \<longrightarrow> qa st' ! s = 0"
    and sq: "sqrt (marginal 0 0 (qa ?st)) = 0"
    by simp_all
  have e1: "qa st' ! 1 = 0"
  proof -
    have "(1::nat) < length (qa st')" using l2 by simp
    moreover have "bit (1::nat) 0" by (simp add: bit_0)
    ultimately show ?thesis using all1 by blast
  qed
  have e0: "qa ?st ! 0 = 0" by simp
  have q1: "qn st' = 1" using r(3) by simp
  from d z have zd: "marginal 0 d (qa ?st) = 0" by simp
  show ?thesis
    apply (intro conjI)
    apply (rule h1, rule h2)
    apply (rule exI [of _ d], rule exI [of _ st'])
    apply (intro conjI)
    apply (rule r(1), rule r(2), rule q1, rule l2, rule zd, rule d, rule sq, rule e1, rule e0)
    done
qed

subsection \<open>Single-qubit gates\<close>

lemma for_each_scatter2:
  assumes "\<And>s b. s \<in> set ss \<Longrightarrow> length b = L \<Longrightarrow>
      step s b = (case add_at (f0 s) (g0 s) b of None \<Rightarrow> None
                  | Some b1 \<Rightarrow> add_at (f1 s) (g1 s) b1)"
    and "\<And>s. s \<in> set ss \<Longrightarrow> f0 s < L \<and> f1 s < L"
    and "length b = L"
  shows "\<exists>b'. for_each ss step b = Some b' \<and> length b' = L \<and>
           (\<forall>t<L. b' ! t = b ! t +
              (\<Sum>s\<leftarrow>ss. (if f0 s = t then g0 s else 0) + (if f1 s = t then g1 s else 0)))"
  using assms
proof (induction ss arbitrary: b)
  case Nil
  then show ?case by simp
next
  case (Cons s ss)
  let ?b1 = "b[f0 s := b ! f0 s + g0 s]"
  let ?b2 = "?b1[f1 s := ?b1 ! f1 s + g1 s]"
  have fs: "f0 s < L" "f1 s < L" using Cons.prems(2) [of s] by simp_all
  have step: "step s b = Some ?b2"
    using Cons.prems(1) [of s b] Cons.prems(3) fs by (simp add: add_at_def)
  have "\<exists>b'. for_each ss step ?b2 = Some b' \<and> length b' = L \<and>
           (\<forall>t<L. b' ! t = ?b2 ! t +
              (\<Sum>s\<leftarrow>ss. (if f0 s = t then g0 s else 0) + (if f1 s = t then g1 s else 0)))"
    by (rule Cons.IH) (use Cons.prems in auto)
  then obtain b' where b': "for_each ss step ?b2 = Some b'" "length b' = L"
    "\<forall>t<L. b' ! t = ?b2 ! t +
        (\<Sum>s\<leftarrow>ss. (if f0 s = t then g0 s else 0) + (if f1 s = t then g1 s else 0))"
    by blast
  have "\<forall>t<L. b' ! t = b ! t +
      (\<Sum>s\<leftarrow>s # ss. (if f0 s = t then g0 s else 0) + (if f1 s = t then g1 s else 0))"
    using b'(3) Cons.prems(3) fs by (auto simp add: nth_list_update)
  with b'(1,2) step show ?case by simp
qed

subsection \<open>Flipping one bit of an index\<close>

lemma flip_involution: "(s XOR 2 ^ p) XOR 2 ^ p = (s::nat)"
  by (simp add: xor.assoc)

lemma flip_bit_p: "bit (s XOR 2 ^ p) p = (\<not> bit (s::nat) p)"
  by (simp add: bit_simps)

lemma flip_neq: "s XOR 2 ^ p \<noteq> (s::nat)"
  using flip_bit_p [of s p] by metis

lemma flip_less: "p < n \<Longrightarrow> s < 2 ^ n \<Longrightarrow> s XOR 2 ^ p < (2::nat) ^ n"
proof -
  assume p: "p < n" and s: "s < 2 ^ n"
  have "take_bit n (s XOR 2 ^ p) = s XOR 2 ^ p"
    by (rule bit_eqI) (auto simp add: bit_simps p dest: nat_bit_bound [OF s])
  then show ?thesis by (rule take_bit_nat_eq_self_iff [THEN iffD1])
qed

lemma gate_target:
  "d < 2 \<Longrightarrow> s XOR push_bit p ((if bit s p then 1 else 0) XOR d) =
     (if (if bit s p then 1 else 0) = d then s else s XOR 2 ^ p)" for s :: nat
proof -
  assume "d < 2"
  then have "d = 0 \<or> d = 1" by auto
  then show ?thesis by (auto simp add: push_bit_eq_mult)
qed

lemma sum_flip:
  fixes G :: "nat \<Rightarrow> 'a::comm_monoid_add"
  assumes "p < n"
  shows "(\<Sum>t<2 ^ n. G (t XOR 2 ^ p)) = (\<Sum>t<2 ^ n. G t)"
  by (rule sum.reindex_bij_witness [of _ "\<lambda>t. t XOR 2 ^ p" "\<lambda>t. t XOR 2 ^ p"])
    (auto simp add: flip_involution flip_less [OF assms])

lemma apply_gate_result:
  assumes len: "length (qa st) = 2 ^ qn st" and p: "p < qn st"
    and T: "length T = 2" "length (T ! 0) = 2" "length (T ! 1) = 2"
  shows "\<exists>st'. apply_gate T p st = Some st' \<and> qn st' = qn st \<and>
           length (qa st') = 2 ^ qn st \<and>
           (\<forall>t<2 ^ qn st. qa st' ! t =
              T ! (if bit t p then 1 else 0) ! (if bit t p then 1 else 0) * qa st ! t +
              T ! (if bit t p then 1 else 0) ! (if bit t p then 0 else 1) * qa st ! (t XOR 2 ^ p))"
proof -
  define L :: nat where "L = 2 ^ qn st"
  define c where "c = (\<lambda>s::nat. if bit s p then 1 else 0 :: nat)"
  define f where "f = (\<lambda>d s. if c s = d then s else s XOR 2 ^ p)"
  define g where "g = (\<lambda>d s. T ! d ! c s * qa st ! s)"
  define step where "step = (\<lambda>s b.
                let c = drop_bit p s AND 1 in
                for_each [0..<2]
                  (\<lambda>d b.
                     case get_at T d of None \<Rightarrow> None
                     | Some row \<Rightarrow>
                         (case get_at row c of None \<Rightarrow> None
                          | Some t \<Rightarrow>
                              (case get_at (qa st) s of None \<Rightarrow> None
                               | Some x \<Rightarrow> add_at (s XOR push_bit p (c XOR d)) (t * x) b)))
                  b)"
  have unfold: "apply_gate T p st =
      (case for_each [0..<L] step (replicate L 0) of None \<Rightarrow> None
       | Some b \<Rightarrow> Some (st\<lparr>qa := b\<rparr>))"
    unfolding apply_gate_def Let_def pow2_S step_def L_def by simp
  have c2: "c s < 2" for s by (simp add: c_def)
  have stepeq: "step s b = (case add_at (f 0 s) (g 0 s) b of None \<Rightarrow> None
                  | Some b1 \<Rightarrow> add_at (f 1 s) (g 1 s) b1)"
    if "s \<in> set [0..<L]" "length b = L" for s b
  proof -
    from that(1) have s: "s < length (qa st)" by (simp add: len L_def)
    have rows: "get_at T 0 = Some (T ! 0)" "get_at T 1 = Some (T ! 1)"
      "get_at (T ! 0) 0 = Some (T ! 0 ! 0)" "get_at (T ! 1) 0 = Some (T ! 1 ! 0)"
      "get_at (T ! 0) 1 = Some (T ! 0 ! 1)" "get_at (T ! 1) 1 = Some (T ! 1 ! 1)"
      using T by (simp_all add: get_at_def)
    show ?thesis
    proof (cases "bit s p")
      case True
      then have "step s b = (case add_at (s XOR 2 ^ p) (T ! 0 ! 1 * qa st ! s) b of None \<Rightarrow> None
                  | Some b1 \<Rightarrow> add_at s (T ! 1 ! 1 * qa st ! s) b1)"
        unfolding step_def Let_def bit_c upt_small
        using rows by (simp add: get_at_Some [OF s] split: option.split)
      with True show ?thesis unfolding f_def g_def c_def by simp
    next
      case False
      then have "step s b = (case add_at s (T ! 0 ! 0 * qa st ! s) b of None \<Rightarrow> None
                  | Some b1 \<Rightarrow> add_at (s XOR 2 ^ p) (T ! 1 ! 0 * qa st ! s) b1)"
        unfolding step_def Let_def bit_c upt_small
        using rows by (simp add: get_at_Some [OF s] split: option.split)
      with False show ?thesis unfolding f_def g_def c_def by simp
    qed
  qed
  have rng: "f 0 s < L \<and> f 1 s < L" if "s \<in> set [0..<L]" for s
    using that flip_less [OF p, of s] by (simp add: f_def L_def)
  from for_each_scatter2 [where ss = "[0..<L]" and L = L and step = step and ?f0.0 = "f 0"
      and ?g0.0 = "g 0" and ?f1.0 = "f 1" and ?g1.0 = "g 1" and b = "replicate L 0",
      OF stepeq rng]
  obtain b' where b': "for_each [0..<L] step (replicate L 0) = Some b'" "length b' = L"
    "\<forall>t<L. b' ! t = replicate L 0 ! t +
        (\<Sum>s\<leftarrow>[0..<L]. (if f 0 s = t then g 0 s else 0) + (if f 1 s = t then g 1 s else 0))"
    by auto
  have val: "b' ! t = T ! c t ! c t * qa st ! t + T ! c t ! (1 - c t) * qa st ! (t XOR 2 ^ p)"
    if t: "t < L" for t
  proof -
    let ?h = "\<lambda>s. (if f 0 s = t then g 0 s else 0) + (if f 1 s = t then g 1 s else 0)"
    let ?F = "t XOR 2 ^ p"
    have FL: "?F < L" using flip_less [OF p, of t] t by (simp add: L_def)
    have cF: "c ?F = 1 - c t" by (simp add: c_def flip_bit_p)
    have FF: "?F XOR 2 ^ p = t" by (rule flip_involution)
    have Fn: "?F \<noteq> t" by (rule flip_neq)
    have zero: "?h s = 0" if "s \<noteq> t" "s \<noteq> ?F" for s
    proof -
      have "s XOR 2 ^ p \<noteq> t" using that(2) flip_involution [of s p] by auto
      with that(1) show ?thesis by (simp add: f_def)
    qed
    have ht: "?h t = T ! c t ! c t * qa st ! t"
      using flip_neq [of t p] c2 [of t] by (auto simp add: f_def g_def c_def)
    have hF: "?h ?F = T ! c t ! (1 - c t) * qa st ! ?F"
      using Fn FF by (auto simp add: f_def g_def c_def flip_bit_p)
    have "b' ! t = (\<Sum>s<L. ?h s)"
      using b'(3) t by (simp add: sum_list_upt_sum)
    also have "\<dots> = (\<Sum>s\<in>{t, ?F}. ?h s)"
      by (rule sum.mono_neutral_right) (use t FL zero in auto)
    also have "\<dots> = ?h t + ?h ?F" using Fn by simp
    finally show ?thesis by (simp only: ht hF)
  qed
  have "\<forall>t<2 ^ qn st. b' ! t =
              T ! (if bit t p then 1 else 0) ! (if bit t p then 1 else 0) * qa st ! t +
              T ! (if bit t p then 1 else 0) ! (if bit t p then 0 else 1) * qa st ! (t XOR 2 ^ p)"
    using val by (auto simp add: L_def c_def)
  with unfold b'(1,2) show ?thesis by (simp add: L_def)
qed

lemma apply_gate_X:
  assumes len: "length (qa st) = 2 ^ qn st" and p: "p < qn st"
  shows "\<exists>st'. apply_gate X p st = Some st' \<and> qn st' = qn st \<and>
           length (qa st') = 2 ^ qn st \<and>
           (\<forall>t<2 ^ qn st. qa st' ! t = qa st ! (t XOR 2 ^ p))"
proof -
  have T: "length X = 2" "length (X ! 0) = 2" "length (X ! 1) = 2"
    by (simp_all add: X_def)
  from apply_gate_result [OF len p T]
  obtain st' where st': "apply_gate X p st = Some st'" "qn st' = qn st"
    "length (qa st') = 2 ^ qn st"
    and g: "\<forall>t<2 ^ qn st. qa st' ! t =
              X ! (if bit t p then 1 else 0) ! (if bit t p then 1 else 0) * qa st ! t +
              X ! (if bit t p then 1 else 0) ! (if bit t p then 0 else 1) * qa st ! (t XOR 2 ^ p)"
    by blast
  from g have "\<forall>t<2 ^ qn st. qa st' ! t = qa st ! (t XOR 2 ^ p)"
    by (simp add: X_def)
  with st' show ?thesis by blast
qed

lemma apply_gate_X_normsq:
  assumes len: "length (qa st) = 2 ^ qn st" and p: "p < qn st"
  shows "\<exists>st'. apply_gate X p st = Some st' \<and> qn st' = qn st \<and>
           length (qa st') = 2 ^ qn st \<and> normsq (qa st') = normsq (qa st)"
proof -
  from apply_gate_X [OF len p]
  obtain st' where st': "apply_gate X p st = Some st'" "qn st' = qn st"
    "length (qa st') = 2 ^ qn st"
    and g: "\<forall>t<2 ^ qn st. qa st' ! t = qa st ! (t XOR 2 ^ p)"
    by blast
  have "normsq (qa st') = (\<Sum>t<2 ^ qn st. (cmod (qa st' ! t))\<^sup>2)"
    by (simp add: normsq_sum st'(3))
  also have "\<dots> = (\<Sum>t<2 ^ qn st. (cmod (qa st ! (t XOR 2 ^ p)))\<^sup>2)"
    by (rule sum.cong) (use g in auto)
  also have "\<dots> = (\<Sum>t<2 ^ qn st. (cmod (qa st ! t))\<^sup>2)"
    using p by (rule sum_flip)
  also have "\<dots> = normsq (qa st)" by (simp add: normsq_sum len)
  finally show ?thesis using st' by blast
qed

lemma half_sqrt: "(1 / sqrt 2)\<^sup>2 = (1 / 2 :: real)"
  by (simp add: power_divide)

lemma cmod_sum_sq: "(cmod (x + y))\<^sup>2 = (cmod x)\<^sup>2 + (cmod y)\<^sup>2 + 2 * (Re x * Re y + Im x * Im y)"
  unfolding cmod_power2 by (simp add: power2_eq_square algebra_simps)

lemma H_plus:
  "(cmod (complex_of_real (1 / sqrt 2) * x + complex_of_real (1 / sqrt 2) * y))\<^sup>2
     = ((cmod x)\<^sup>2 + (cmod y)\<^sup>2) / 2 + (Re x * Re y + Im x * Im y)"
proof -
  have "complex_of_real (1 / sqrt 2) * x + complex_of_real (1 / sqrt 2) * y
      = complex_of_real (1 / sqrt 2) * (x + y)"
    by (simp only: distrib_left)
  then have "(cmod (complex_of_real (1 / sqrt 2) * x + complex_of_real (1 / sqrt 2) * y))\<^sup>2
      = (1 / sqrt 2)\<^sup>2 * (cmod (x + y))\<^sup>2"
    by (simp only: norm_mult norm_of_real power_mult_distrib power2_abs)
  then show ?thesis
    by (simp only: half_sqrt cmod_sum_sq) (simp add: algebra_simps)
qed

lemma H_minus:
  "(cmod (complex_of_real (- 1 / sqrt 2) * x + complex_of_real (1 / sqrt 2) * y))\<^sup>2
     = ((cmod x)\<^sup>2 + (cmod y)\<^sup>2) / 2 - (Re x * Re y + Im x * Im y)"
proof -
  have "complex_of_real (- 1 / sqrt 2) * x + complex_of_real (1 / sqrt 2) * y
      = complex_of_real (1 / sqrt 2) * (- x) + complex_of_real (1 / sqrt 2) * y"
    by simp
  then show ?thesis
    by (simp only: H_plus) simp
qed

lemma sum_antisym_zero:
  fixes r :: "nat \<Rightarrow> real"
  assumes p: "p < n" and anti: "\<And>t. r (t XOR 2 ^ p) = - r t"
  shows "(\<Sum>t<2 ^ n. r t) = 0"
proof -
  have "(\<Sum>t<2 ^ n. r t) = (\<Sum>t<2 ^ n. r (t XOR 2 ^ p))"
    using p by (rule sum_flip [symmetric])
  also have "\<dots> = - (\<Sum>t<2 ^ n. r t)"
    by (simp add: anti sum_negf)
  finally show ?thesis by simp
qed

lemma apply_gate_H_normsq:
  assumes len: "length (qa st) = 2 ^ qn st" and p: "p < qn st"
  shows "\<exists>st'. apply_gate H p st = Some st' \<and> qn st' = qn st \<and>
           length (qa st') = 2 ^ qn st \<and> normsq (qa st') = normsq (qa st)"
proof -
  let ?L = "(2::nat) ^ qn st"
  have T: "length H = 2" "length (H ! 0) = 2" "length (H ! 1) = 2"
    by (simp_all add: H_def)
  from apply_gate_result [OF len p T]
  obtain st' where st': "apply_gate H p st = Some st'" "qn st' = qn st"
    "length (qa st') = 2 ^ qn st"
    and g: "\<forall>t<2 ^ qn st. qa st' ! t =
              H ! (if bit t p then 1 else 0) ! (if bit t p then 1 else 0) * qa st ! t +
              H ! (if bit t p then 1 else 0) ! (if bit t p then 0 else 1) * qa st ! (t XOR 2 ^ p)"
    by blast
  define a where "a = (\<lambda>t. qa st ! t)"
  define r where "r = (\<lambda>t. (if bit t p then - 1 else 1) *
      (Re (a t) * Re (a (t XOR 2 ^ p)) + Im (a t) * Im (a (t XOR 2 ^ p))))"
  have each: "(cmod (qa st' ! t))\<^sup>2 =
      ((cmod (a t))\<^sup>2 + (cmod (a (t XOR 2 ^ p)))\<^sup>2) / 2 + r t" if "t < ?L" for t
  proof (cases "bit t p")
    case True
    with g that have "qa st' ! t = complex_of_real (- 1 / sqrt 2) * a t
        + complex_of_real (1 / sqrt 2) * a (t XOR 2 ^ p)"
      by (simp add: H_def a_def)
    with True show ?thesis by (simp only: H_minus r_def) simp
  next
    case False
    with g that have "qa st' ! t = complex_of_real (1 / sqrt 2) * a t
        + complex_of_real (1 / sqrt 2) * a (t XOR 2 ^ p)"
      by (simp add: H_def a_def)
    with False show ?thesis by (simp only: H_plus r_def) simp
  qed
  have anti: "r (t XOR 2 ^ p) = - r t" for t
    by (simp add: r_def flip_bit_p flip_involution mult.commute)
  have "normsq (qa st') = (\<Sum>t<?L. (cmod (qa st' ! t))\<^sup>2)"
    by (simp add: normsq_sum st'(3))
  also have "\<dots> = (\<Sum>t<?L. ((cmod (a t))\<^sup>2 + (cmod (a (t XOR 2 ^ p)))\<^sup>2) / 2 + r t)"
    by (rule sum.cong) (use each in auto)
  also have "\<dots> = (\<Sum>t<?L. ((cmod (a t))\<^sup>2 + (cmod (a (t XOR 2 ^ p)))\<^sup>2) / 2) + (\<Sum>t<?L. r t)"
    by (rule sum.distrib)
  also have "(\<Sum>t<?L. ((cmod (a t))\<^sup>2 + (cmod (a (t XOR 2 ^ p)))\<^sup>2) / 2)
      = (\<Sum>t<?L. (cmod (a t))\<^sup>2 + (cmod (a (t XOR 2 ^ p)))\<^sup>2) / 2"
    by (rule sum_divide_distrib [symmetric])
  also have "(\<Sum>t<?L. (cmod (a t))\<^sup>2 + (cmod (a (t XOR 2 ^ p)))\<^sup>2)
      = (\<Sum>t<?L. (cmod (a t))\<^sup>2) + (\<Sum>t<?L. (cmod (a (t XOR 2 ^ p)))\<^sup>2)"
    by (rule sum.distrib)
  also have "(\<Sum>t<?L. (cmod (a (t XOR 2 ^ p)))\<^sup>2) = (\<Sum>t<?L. (cmod (a t))\<^sup>2)"
    using p by (rule sum_flip)
  also have "(\<Sum>t<?L. r t) = 0"
    using p anti by (rule sum_antisym_zero)
  finally have "normsq (qa st') = (\<Sum>t<?L. (cmod (a t))\<^sup>2)" by simp
  then have "normsq (qa st') = normsq (qa st)"
    by (simp add: normsq_sum len a_def)
  with st' show ?thesis by blast
qed

subsection \<open>The norm under the gates\<close>

lemma mul_target_range:
  assumes N: "0 < N" "N \<le> 2 ^ k" and v: "0 \<le> v" and s: "s < 2 ^ (3 * k)"
  shows "mul_target (2 * k) con v N s < 2 ^ (3 * k)"
proof (cases "bit s con")
  case False
  with s show ?thesis by (simp add: mul_target_def)
next
  case True
  let ?w = "mul_transform v N (int (drop_bit (2 * k) s))"
  have "0 \<le> ?w \<and> ?w < N"
    using mul_transform_range [OF N(1) v, of "int (drop_bit (2 * k) s)"] by simp
  with N(2) have "?w < 2 ^ k" "0 \<le> ?w" by simp_all
  then have "nat ?w < 2 ^ k" by (simp add: nat_less_iff)
  then have "push_bit (2 * k) (nat ?w) OR take_bit (2 * k) s < 2 ^ (2 * k + k)"
    by (rule idx_bound)
  with True show ?thesis by (simp add: mul_target_def)
qed

lemma find_n_7: "find_n 0 7 = 3"
  by (simp add: find_n.simps)

lemma normsq_two:
  assumes "i < L" "j < L" "i \<noteq> j"
  shows "normsq ((replicate L 0)[i := 3 / 5, j := 4 / 5]) = 1"
proof -
  let ?v = "(replicate L (0::complex))[i := 3 / 5, j := 4 / 5]"
  have "normsq ?v = (\<Sum>t<L. (cmod (?v ! t))\<^sup>2)"
    by (simp add: normsq_sum)
  also have "\<dots> = (\<Sum>t\<in>{i, j}. (cmod (?v ! t))\<^sup>2)"
    by (rule sum.mono_neutral_right) (use assms in \<open>auto simp add: nth_list_update\<close>)
  also have "\<dots> = 1"
    using assms by (simp add: nth_list_update power2_eq_square)
  finally show ?thesis .
qed

lemma two_below:
  assumes "int (drop_bit m i) < N" "int (drop_bit m j) < N"
  shows "second_reg_below m N ((replicate L 0)[i := x, j := y])"
proof -
  have "int (drop_bit m s) < N"
    if "s < L" "(replicate L (0::complex))[i := x, j := y] ! s \<noteq> 0" for s
  proof (cases "s = i \<or> s = j")
    case True
    with assms show ?thesis by auto
  next
    case False
    with that show ?thesis by simp
  qed
  then show ?thesis by (simp add: second_reg_below_def)
qed

lemma two_not_below:
  assumes "j < L" "y \<noteq> 0" "\<not> int (drop_bit m j) < N"
  shows "\<not> second_reg_below m N ((replicate L 0)[i := x, j := y])"
proof
  assume "second_reg_below m N ((replicate L 0)[i := x, j := y])"
  then have "(replicate L 0)[i := x, j := y] ! j \<noteq> 0 \<longrightarrow> int (drop_bit m j) < N"
    using assms(1) by (simp add: second_reg_below_def)
  with assms show False by simp
qed

text \<open>Two amplitudes that \<open>mul\<close> sends to the same index are added there.\<close>

lemma mul_merge:
  assumes i: "i < 2 ^ (3 * k)" and j: "j < 2 ^ (3 * k)" and ij: "i \<noteq> j"
    and N: "0 < N" "N \<le> 2 ^ k"
    and fi: "mul_target (2 * k) con (a ^ (2 ^ Suc con) mod N) N i = t"
    and fj: "mul_target (2 * k) con (a ^ (2 ^ Suc con) mod N) N j = t"
  shows "\<exists>st'. mul \<lparr>qn = 3 * k, qa = (replicate (2 ^ (3 * k)) 0)[i := 3 / 5, j := 4 / 5]\<rparr> con a N
            = Some st' \<and> normsq (qa st') \<noteq> 1"
proof -
  let ?L = "(2::nat) ^ (3 * k)"
  let ?v = "(replicate ?L (0::complex))[i := 3 / 5, j := 4 / 5]"
  let ?st = "\<lparr>qn = 3 * k, qa = ?v\<rparr>"
  let ?f = "mul_target (2 * k) con (a ^ (2 ^ Suc con) mod N) N"
  have a: "qn ?st = 3 * k" by simp
  have b: "length (qa ?st) = 2 ^ (3 * k)" by simp
  from mul_result [OF a b N, of con a]
  obtain st' where st': "mul ?st con a N = Some st'" "length (qa st') = ?L"
    and g: "\<forall>t<?L. qa st' ! t = (\<Sum>s<?L. if ?f s = t then qa ?st ! s else 0)"
    by auto
  have "0 \<le> a ^ (2 ^ Suc con) mod N" using N(1) by simp
  from mul_target_range [OF N this i, of con] fi have t: "t < ?L" by simp
  have "qa st' ! t = (\<Sum>s<?L. if ?f s = t then ?v ! s else 0)"
    using g t by (simp cong: if_cong)
  also have "\<dots> = (\<Sum>s\<in>{i, j}. if ?f s = t then ?v ! s else 0)"
    by (rule sum.mono_neutral_right) (use i j in \<open>auto simp add: nth_list_update\<close>)
  also have "\<dots> = 7 / 5"
    using fi fj ij i j by (simp add: nth_list_update)
  finally have b1: "qa st' ! t = 7 / 5" .
  have "(cmod (qa st' ! t))\<^sup>2 \<le> (\<Sum>t<?L. (cmod (qa st' ! t))\<^sup>2)"
    by (rule member_le_sum) (use t in simp_all)
  also have "\<dots> = normsq (qa st')" using st'(2) by (simp add: normsq_sum)
  finally have "(cmod (qa st' ! t))\<^sup>2 \<le> normsq (qa st')" .
  moreover have "(cmod (qa st' ! t))\<^sup>2 = 49 / 25"
    unfolding b1 by (simp add: norm_divide power2_eq_square)
  ultimately have "49 / 25 \<le> normsq (qa st')" by simp
  then have "normsq (qa st') \<noteq> 1" by simp
  with st'(1) show ?thesis by blast
qed

lemma coprime_2_15: "coprime (2::int) 15"
proof -
  have "gcd (2::int) 15 = 1" by (simp add: gcd_non_0_int)
  then show ?thesis by (simp only: coprime_iff_gcd_eq_1)
qed

text \<open>
  C6.  The claim is that every gate keeps the sum of the squared magnitudes at 1 for every
  state.  \<open>mul\<close> adds the amplitudes \<open>3/5\<close> and \<open>4/5\<close> of two indices (sum of squares 1) at
  one index, so that the sum of squares of the result is not 1, in each of these cases:
  for \<open>N = 15\<close>, \<open>a = 2\<close>, control 0 and the second-register values \<open>0\<close> and \<open>15\<close> (indices
  \<open>1\<close> and \<open>3841\<close>), one of them not below \<open>N\<close>; for \<open>N = 15\<close>, the base \<open>a = 3\<close> not coprime to
  \<open>N\<close>, control 0 and the values \<open>1\<close> and \<open>6\<close> (indices \<open>257\<close> and \<open>1537\<close>), both below \<open>N\<close>;
  for \<open>N = 7\<close>, \<open>a = 3\<close> and the control \<open>6\<close>, a qubit of the second register, and the values
  \<open>1\<close> and \<open>2\<close> (indices \<open>64\<close> and \<open>128\<close>).  On a state that has not the \<open>3n\<close> qubits of the
  three registers, the one-qubit state \<open>(0, 1)\<close>, \<open>mul\<close> for \<open>N = 15\<close>, \<open>a = 2\<close>, control 0
  leaves the one-entry vector \<open>(0)\<close>.
\<close>

theorem mul_merges_amplitudes:
  "(coprime (2::int) 15 \<and> (0::nat) < 2 * find_n 0 15 \<and>
    wf_state \<lparr>qn = 12, qa = (replicate 4096 0)[1 := 3 / 5, 3841 := 4 / 5]\<rparr> \<and>
    normsq (qa \<lparr>qn = 12, qa = (replicate 4096 0)[1 := 3 / 5, 3841 := 4 / 5]\<rparr>) = 1 \<and>
    \<not> second_reg_below (2 * find_n 0 15) 15
        (qa \<lparr>qn = 12, qa = (replicate 4096 0)[1 := 3 / 5, 3841 := 4 / 5]\<rparr>) \<and>
    map_option (\<lambda>st'. normsq (qa st') = 1)
      (mul \<lparr>qn = 12, qa = (replicate 4096 0)[1 := 3 / 5, 3841 := 4 / 5]\<rparr> 0 2 15) = Some False) \<and>
   (\<not> coprime (3::int) 15 \<and> (0::nat) < 2 * find_n 0 15 \<and>
    wf_state \<lparr>qn = 12, qa = (replicate 4096 0)[257 := 3 / 5, 1537 := 4 / 5]\<rparr> \<and>
    normsq (qa \<lparr>qn = 12, qa = (replicate 4096 0)[257 := 3 / 5, 1537 := 4 / 5]\<rparr>) = 1 \<and>
    second_reg_below (2 * find_n 0 15) 15
        (qa \<lparr>qn = 12, qa = (replicate 4096 0)[257 := 3 / 5, 1537 := 4 / 5]\<rparr>) \<and>
    map_option (\<lambda>st'. normsq (qa st') = 1)
      (mul \<lparr>qn = 12, qa = (replicate 4096 0)[257 := 3 / 5, 1537 := 4 / 5]\<rparr> 0 3 15) = Some False) \<and>
   (coprime (3::int) 7 \<and> \<not> (6::nat) < 2 * find_n 0 7 \<and>
    wf_state \<lparr>qn = 9, qa = (replicate 512 0)[64 := 3 / 5, 128 := 4 / 5]\<rparr> \<and>
    normsq (qa \<lparr>qn = 9, qa = (replicate 512 0)[64 := 3 / 5, 128 := 4 / 5]\<rparr>) = 1 \<and>
    second_reg_below (2 * find_n 0 7) 7
        (qa \<lparr>qn = 9, qa = (replicate 512 0)[64 := 3 / 5, 128 := 4 / 5]\<rparr>) \<and>
    map_option (\<lambda>st'. normsq (qa st') = 1)
      (mul \<lparr>qn = 9, qa = (replicate 512 0)[64 := 3 / 5, 128 := 4 / 5]\<rparr> 6 3 7) = Some False) \<and>
   (coprime (2::int) 15 \<and> (0::nat) < 2 * find_n 0 15 \<and>
    wf_state \<lparr>qn = 1, qa = [0, 1]\<rparr> \<and> normsq (qa \<lparr>qn = 1, qa = [0, 1]\<rparr>) = 1 \<and>
    qn \<lparr>qn = 1, qa = [0, 1]\<rparr> \<noteq> 3 * find_n 0 15 \<and>
    second_reg_below (2 * find_n 0 15) 15 (qa \<lparr>qn = 1, qa = [0, 1]\<rparr>) \<and>
    map_option qa (mul \<lparr>qn = 1, qa = [0, 1]\<rparr> 0 2 15) = Some [0] \<and>
    normsq [0] \<noteq> 1)"
proof -
  let ?v1 = "(replicate 4096 (0::complex))[1 := 3 / 5, 3841 := 4 / 5]"
  let ?v2 = "(replicate 4096 (0::complex))[257 := 3 / 5, 1537 := 4 / 5]"
  let ?v3 = "(replicate 512 (0::complex))[64 := 3 / 5, 128 := 4 / 5]"
  have L4: "(2::nat) ^ (3 * 4) = 4096" and L3: "(2::nat) ^ (3 * 3) = 512" by simp_all
  have q4: "3 * 4 = (12::nat)" and q3: "3 * 3 = (9::nat)" by simp_all
  have c1: "coprime (2::int) 15" by (rule coprime_2_15)
  have c2: "\<not> coprime (3::int) 15"
  proof
    assume "coprime (3::int) 15"
    moreover have "(3::int) dvd 3" "(3::int) dvd 15" by simp_all
    ultimately have "is_unit (3::int)" by (rule coprime_common_divisor)
    then show False by simp
  qed
  have c3: "coprime (3::int) 7"
  proof -
    have "gcd (3::int) 7 = 1" by (simp add: gcd_non_0_int)
    then show ?thesis by (simp only: coprime_iff_gcd_eq_1)
  qed
  have k15: "(0::nat) < 2 * find_n 0 15" by (simp add: find_n_15)
  have k7: "\<not> (6::nat) < 2 * find_n 0 7" by (simp add: find_n_7)
  have w1: "wf_state \<lparr>qn = 12, qa = ?v1\<rparr>" by (simp add: wf_state_def)
  have w2: "wf_state \<lparr>qn = 12, qa = ?v2\<rparr>" by (simp add: wf_state_def)
  have w3: "wf_state \<lparr>qn = 9, qa = ?v3\<rparr>" by (simp add: wf_state_def)
  have n1: "normsq (qa \<lparr>qn = 12, qa = ?v1\<rparr>) = 1" by (simp add: normsq_two)
  have n2: "normsq (qa \<lparr>qn = 12, qa = ?v2\<rparr>) = 1" by (simp add: normsq_two)
  have n3: "normsq (qa \<lparr>qn = 9, qa = ?v3\<rparr>) = 1" by (simp add: normsq_two)
  have "\<not> second_reg_below 8 15 ?v1"
    by (rule two_not_below) (simp_all add: drop_bit_eq_div)
  then have b1: "\<not> second_reg_below (2 * find_n 0 15) 15 (qa \<lparr>qn = 12, qa = ?v1\<rparr>)"
    by (simp add: find_n_15)
  have "second_reg_below 8 15 ?v2"
    by (rule two_below) (simp_all add: drop_bit_eq_div)
  then have b2: "second_reg_below (2 * find_n 0 15) 15 (qa \<lparr>qn = 12, qa = ?v2\<rparr>)"
    by (simp add: find_n_15)
  have "second_reg_below 6 7 ?v3"
    by (rule two_below) (simp_all add: drop_bit_eq_div)
  then have b3: "second_reg_below (2 * find_n 0 7) 7 (qa \<lparr>qn = 9, qa = ?v3\<rparr>)"
    by (simp add: find_n_7)
  have f1: "mul_target (2 * 4) 0 (2 ^ (2 ^ Suc 0) mod 15) 15 1 = 1"
    by (simp add: mul_target_def mul_transform_def drop_bit_eq_div take_bit_eq_mod)
  have f1': "mul_target (2 * 4) 0 (2 ^ (2 ^ Suc 0) mod 15) 15 3841 = 1"
    by (simp add: mul_target_def mul_transform_def drop_bit_eq_div take_bit_eq_mod
        signed_modulo_int_def bit_0)
  have f2: "mul_target (2 * 4) 0 (3 ^ (2 ^ Suc 0) mod 15) 15 257 = 2305"
    by (simp add: mul_target_def mul_transform_def drop_bit_eq_div take_bit_eq_mod
        signed_modulo_int_def bit_0)
  have f2': "mul_target (2 * 4) 0 (3 ^ (2 ^ Suc 0) mod 15) 15 1537 = 2305"
    by (simp add: mul_target_def mul_transform_def drop_bit_eq_div take_bit_eq_mod
        signed_modulo_int_def bit_0)
  have v3: "(3::int) ^ (2 ^ Suc 6) mod 7 = 2" by simp
  have f3: "mul_target (2 * 3) 6 (3 ^ (2 ^ Suc 6) mod 7) 7 64 = 128"
    unfolding v3
    by (simp add: mul_target_def mul_transform_def drop_bit_eq_div take_bit_eq_mod
        signed_modulo_int_def bit_iff_odd)
  have f3': "mul_target (2 * 3) 6 (3 ^ (2 ^ Suc 6) mod 7) 7 128 = 128"
    unfolding v3
    by (simp add: mul_target_def bit_iff_odd)
  have "\<exists>st'. mul \<lparr>qn = 3 * 4, qa = (replicate (2 ^ (3 * 4)) 0)[1 := 3 / 5, 3841 := 4 / 5]\<rparr> 0 2 15
            = Some st' \<and> normsq (qa st') \<noteq> 1"
    by (rule mul_merge [OF _ _ _ _ _ f1 f1']) simp_all
  then have m1: "map_option (\<lambda>st'. normsq (qa st') = 1) (mul \<lparr>qn = 12, qa = ?v1\<rparr> 0 2 15) = Some False"
    unfolding L4 q4 by auto
  have "\<exists>st'. mul \<lparr>qn = 3 * 4, qa = (replicate (2 ^ (3 * 4)) 0)[257 := 3 / 5, 1537 := 4 / 5]\<rparr> 0 3 15
            = Some st' \<and> normsq (qa st') \<noteq> 1"
    by (rule mul_merge [OF _ _ _ _ _ f2 f2']) simp_all
  then have m2: "map_option (\<lambda>st'. normsq (qa st') = 1) (mul \<lparr>qn = 12, qa = ?v2\<rparr> 0 3 15) = Some False"
    unfolding L4 q4 by auto
  have "\<exists>st'. mul \<lparr>qn = 3 * 3, qa = (replicate (2 ^ (3 * 3)) 0)[64 := 3 / 5, 128 := 4 / 5]\<rparr> 6 3 7
            = Some st' \<and> normsq (qa st') \<noteq> 1"
    by (rule mul_merge [OF _ _ _ _ _ f3 f3']) simp_all
  then have m3: "map_option (\<lambda>st'. normsq (qa st') = 1) (mul \<lparr>qn = 9, qa = ?v3\<rparr> 6 3 7) = Some False"
    unfolding L3 q3 by auto
  have w4: "wf_state \<lparr>qn = 1, qa = [0, 1]\<rparr>" by (simp add: wf_state_def)
  have n4: "normsq (qa \<lparr>qn = 1, qa = [0, 1]\<rparr>) = 1" by (simp add: normsq_def)
  have q4': "qn \<lparr>qn = 1, qa = [0, 1 :: complex]\<rparr> \<noteq> 3 * find_n 0 15" by (simp add: find_n_15)
  have b4: "second_reg_below (2 * find_n 0 15) 15 (qa \<lparr>qn = 1, qa = [0, 1]\<rparr>)"
  proof -
    have "int (drop_bit 8 s) < 15" if "s < 2" for s :: nat
    proof -
      from that have "s div 2 ^ 8 = 0" by simp
      then show ?thesis by (simp only: drop_bit_eq_div)
    qed
    then show ?thesis by (simp add: second_reg_below_def find_n_15)
  qed
  have pw: "power_ll 2 (2 ^ 0) 15 = Some 4"
    by (simp add: power_ll_def power_loop_step power_loop_zero signed_modulo_int_def)
  have m4: "map_option qa (mul \<lparr>qn = 1, qa = [0, 1]\<rparr> 0 2 15) = Some [0]"
    unfolding mul_def pw by (simp add: upt_small get_at_def add_at_def)
  have z4: "normsq [0] \<noteq> 1" by (simp add: normsq_def)
  show ?thesis
    apply (intro conjI)
    apply (rule c1, rule k15, rule w1, rule n1, rule b1, rule m1)
    apply (rule c2, rule k15, rule w2, rule n2, rule b2, rule m2)
    apply (rule c3, rule k7, rule w3, rule n3, rule b3, rule m3)
    apply (rule c1, rule k15, rule w4, rule n4, rule q4', rule b4, rule m4, rule z4)
    done
qed

text \<open>
  C6, as amended.  For a well-formed state whose squared magnitudes sum to 1 (in exact
  arithmetic): \<open>apply_gate\<close> with \<open>H\<close> or \<open>X\<close> on a qubit \<open>p\<close> of the register gives a state
  whose squared magnitudes sum to 1; so does \<open>mul\<close> for a state of the \<open>3n\<close> qubits of the
  three registers (\<open>n = find_n 0 N\<close>), \<open>a\<close> coprime to \<open>N\<close>, a control in the first register
  and a state whose nonzero amplitudes have a second-register value below \<open>N\<close>.
\<close>

theorem gates_preserve_norm:
  assumes "wf_state st" and "normsq (qa st) = 1"
  shows "(p < qn st \<longrightarrow>
            (\<exists>st'. apply_gate H p st = Some st' \<and> wf_state st' \<and> normsq (qa st') = 1) \<and>
            (\<exists>st'. apply_gate X p st = Some st' \<and> wf_state st' \<and> normsq (qa st') = 1)) \<and>
         (coprime a N \<and> qn st = 3 * find_n 0 N \<and> con < 2 * find_n 0 N \<and>
          second_reg_below (2 * find_n 0 N) N (qa st) \<longrightarrow>
            (\<exists>st'. mul st con a N = Some st' \<and> wf_state st' \<and> normsq (qa st') = 1))"
proof -
  have len: "length (qa st) = 2 ^ qn st" and n31: "qn st < 31"
    using assms(1) by (simp_all add: wf_state_def)
  have gates: "(\<exists>st'. apply_gate H p st = Some st' \<and> wf_state st' \<and> normsq (qa st') = 1) \<and>
            (\<exists>st'. apply_gate X p st = Some st' \<and> wf_state st' \<and> normsq (qa st') = 1)"
    if p: "p < qn st"
  proof -
    from apply_gate_H_normsq [OF len p] obtain s1 where
      "apply_gate H p st = Some s1" "qn s1 = qn st" "length (qa s1) = 2 ^ qn st"
      "normsq (qa s1) = normsq (qa st)" by blast
    then have h: "\<exists>st'. apply_gate H p st = Some st' \<and> wf_state st' \<and> normsq (qa st') = 1"
      using assms(2) n31 by (simp add: wf_state_def)
    from apply_gate_X_normsq [OF len p] obtain s2 where
      "apply_gate X p st = Some s2" "qn s2 = qn st" "length (qa s2) = 2 ^ qn st"
      "normsq (qa s2) = normsq (qa st)" by blast
    then have "\<exists>st'. apply_gate X p st = Some st' \<and> wf_state st' \<and> normsq (qa st') = 1"
      using assms(2) n31 by (simp add: wf_state_def)
    with h show ?thesis by blast
  qed
  have m: "\<exists>st'. mul st con a N = Some st' \<and> wf_state st' \<and> normsq (qa st') = 1"
    if h: "coprime a N" "qn st = 3 * find_n 0 N" "con < 2 * find_n 0 N"
      "second_reg_below (2 * find_n 0 N) N (qa st)"
  proof -
    have N: "0 < N"
    proof (rule ccontr)
      assume "\<not> 0 < N"
      then have "find_n 0 N = 0" by (subst find_n.simps) simp
      with h(3) show False by simp
    qed
    have l3: "length (qa st) = 2 ^ (3 * find_n 0 N)" using len h(2) by simp
    from mul_normsq [OF h(2) l3 N find_n_ge h(1) h(3) h(4)] obtain s3 where
      "mul st con a N = Some s3" "qn s3 = qn st" "length (qa s3) = 2 ^ (3 * find_n 0 N)"
      "normsq (qa s3) = normsq (qa st)" by blast
    then show ?thesis using assms(2) n31 h(2) by (simp add: wf_state_def)
  qed
  from gates m show ?thesis by blast
qed

theorem gates_preserve_norm_witness:
  "wf_state \<lparr>qn = 12, qa = (replicate 4096 0)[257 := 1]\<rparr> \<and>
   normsq (qa \<lparr>qn = 12, qa = (replicate 4096 0)[257 := 1]\<rparr>) = 1 \<and>
   (0::nat) < qn \<lparr>qn = 12, qa = (replicate 4096 0)[257 := 1]\<rparr> \<and>
   coprime (2::int) 15 \<and>
   qn \<lparr>qn = 12, qa = (replicate 4096 0)[257 := 1]\<rparr> = 3 * find_n 0 15 \<and>
   (0::nat) < 2 * find_n 0 15 \<and>
   second_reg_below (2 * find_n 0 15) 15 (qa \<lparr>qn = 12, qa = (replicate 4096 0)[257 := 1]\<rparr>) \<and>
   bit (257::nat) 0 \<and>
   (\<exists>st'. apply_gate H 0 \<lparr>qn = 12, qa = (replicate 4096 0)[257 := 1]\<rparr> = Some st' \<and>
      wf_state st' \<and> normsq (qa st') = 1) \<and>
   (\<exists>st'. apply_gate X 0 \<lparr>qn = 12, qa = (replicate 4096 0)[257 := 1]\<rparr> = Some st' \<and>
      wf_state st' \<and> normsq (qa st') = 1) \<and>
   (\<exists>st'. mul \<lparr>qn = 12, qa = (replicate 4096 0)[257 := 1]\<rparr> 0 2 15 = Some st' \<and>
      wf_state st' \<and> normsq (qa st') = 1 \<and> qa st' ! 1025 = 1 \<and> qa st' ! 257 = 0)"
proof -
  let ?st = "\<lparr>qn = 12, qa = (replicate 4096 (0::complex))[257 := 1]\<rparr>"
  have h1: "wf_state ?st" and h2: "normsq (qa ?st) = 1"
    and h6: "qn ?st = 3 * find_n 0 15"
    and h8: "second_reg_below (2 * find_n 0 15) 15 (qa ?st)"
    using basis_257 by blast+
  have h3: "0 < qn ?st" by simp
  have h5: "coprime (2::int) 15" by (rule coprime_2_15)
  have h7: "0 < 2 * find_n 0 15" by (simp add: find_n_15)
  have h9: "bit (257::nat) 0" by (simp add: bit_0)
  note g = gates_preserve_norm [OF h1 h2, where p = 0 and N = 15 and a = 2 and con = 0]
  from g h3 have gH: "\<exists>st'. apply_gate H 0 ?st = Some st' \<and> wf_state st' \<and> normsq (qa st') = 1"
    and gX: "\<exists>st'. apply_gate X 0 ?st = Some st' \<and> wf_state st' \<and> normsq (qa st') = 1"
    by blast+
  from g h5 h6 h7 h8 obtain st' where
    m: "mul ?st 0 2 15 = Some st'" "wf_state st'" "normsq (qa st') = 1"
    by blast
  from mul_basis_257 m(1) have e: "qa st' ! 1025 = 1" "qa st' ! 257 = 0" by auto
  show ?thesis
    apply (intro conjI)
    apply (rule h1, rule h2, rule h3, rule h5, rule h6, rule h7, rule h8, rule h9)
    apply (rule gH, rule gX)
    apply (rule exI [of _ st'])
    apply (intro conjI)
    apply (rule m(1), rule m(2), rule m(3), rule e(1), rule e(2))
    done
qed

subsection \<open>Loops over a state\<close>

lemma for_each_invariant:
  assumes "P st" and "\<And>i s. i \<in> set is \<Longrightarrow> P s \<Longrightarrow> \<exists>s'. f i s = Some s' \<and> P s'"
  shows "\<exists>s'. for_each is f st = Some s' \<and> P s'"
  using assms
proof (induction "is" arbitrary: st)
  case Nil
  then show ?case by simp
next
  case (Cons i "is")
  from Cons.prems(2) [of i st] Cons.prems(1) obtain s1 where s1: "f i st = Some s1" "P s1"
    by auto
  have "\<exists>s'. for_each is f s1 = Some s' \<and> P s'"
    by (rule Cons.IH) (use s1 Cons.prems(2) in auto)
  with s1 show ?case by simp
qed


subsection \<open>Grover: oracle, diffusion and the loop\<close>
















subsection \<open>The classical loop of \<open>factor\<close>\<close>

lemma gcd_ll_eq: "0 \<le> m \<Longrightarrow> 0 \<le> n \<Longrightarrow> gcd_ll m n = gcd m n"
proof (induction m n rule: gcd_ll.induct)
  case (1 m n)
  show ?case
  proof (cases "n = 0")
    case True
    with 1 show ?thesis by (subst gcd_ll.simps) simp
  next
    case False
    with 1 have n: "0 < n" by simp
    have sm: "m smod n = m mod n" using 1(2) n by (rule smod_nonneg)
    have "gcd_ll m n = gcd_ll n (m smod n)" using False by (subst gcd_ll.simps) simp
    also have "\<dots> = gcd n (m mod n)"
      using 1(1) [OF False] 1(3) n sm by simp
    also have "\<dots> = gcd m n" by (rule gcd_red_int [symmetric])
    finally show ?thesis .
  qed
qed

lemma base_draw:
  fixes r0 :: "64 word"
  assumes "2 \<le> n" "n < 2 ^ 63"
  shows "(word_of_int (n - 1) :: 64 word) \<noteq> 0 \<and>
         sint (r0 mod word_of_int (n - 1) + 1) = int (unat r0 mod nat (n - 1)) + 1"
proof -
  define k :: "64 word" where "k = word_of_int (n - 1)"
  define r :: "64 word" where "r = r0 mod k"
  have "uint k = (n - 1) mod 2 ^ LENGTH(64)" unfolding k_def by (rule uint_word_of_int)
  also have "\<dots> = n - 1" using assms by simp
  finally have k: "uint k = n - 1" .
  have k0: "k \<noteq> 0"
  proof
    assume "k = 0"
    then have "uint k = 0" by (simp only: uint_0_iff)
    with k assms(1) show False by simp
  qed
  have m: "uint r = uint r0 mod (n - 1)"
    unfolding r_def by (simp only: uint_mod_distrib k)
  have mb: "0 \<le> uint r0 mod (n - 1)" "uint r0 mod (n - 1) < n - 1"
    using assms(1) by simp_all
  have "uint r + uint (1 :: 64 word) < 2 ^ LENGTH(64)"
    using mb assms(2) by (simp add: m)
  then have "uint (r + 1) = uint r + uint (1 :: 64 word)"
    by (simp only: uint_add_lem)
  then have u: "uint (r + 1) = uint r0 mod (n - 1) + 1"
    by (simp add: m)
  have "sint (r + 1) = signed_take_bit (LENGTH(64) - Suc 0) (uint (r + 1))"
    by (rule sint_uint)
  also have "\<dots> = signed_take_bit 63 (uint r0 mod (n - 1) + 1)"
    by (simp only: u) simp
  also have "\<dots> = uint r0 mod (n - 1) + 1"
    by (rule signed_take_bit_int_eq_self) (use mb assms(2) in simp_all)
  finally have s: "sint (r + 1) = uint r0 mod (n - 1) + 1" .
  have "int (unat r0 mod nat (n - 1)) = int (unat r0) mod int (nat (n - 1))"
    by (rule zmod_int)
  also have "int (nat (n - 1)) = n - 1" using assms(1) by simp
  also have "int (unat r0) = uint r0" by (rule uint_nat [symmetric])
  finally have "sint (r + 1) = int (unat r0 mod nat (n - 1)) + 1" using s by simp
  with k0 show ?thesis unfolding r_def k_def by blast
qed

lemma cf_search_Found: "cf_search a N p q fracs = Some (Found x) \<Longrightarrow> x \<noteq> 0"
proof (induction a N p q fracs rule: cf_search.induct)
  case (1 a N p q fracs)
  show ?case
  proof (cases "q = 0")
    case True
    with 1(3) show ?thesis by (subst (asm) cf_search.simps) simp
  next
    case False
    let ?f = "fracs @ [p sdiv q]"
    let ?x = "cf_candidate ?f"
    from 1(3) False have r: "(if ?x \<ge> N then Some Exhausted
        else if ?x \<noteq> 0
        then (case power_ll a ?x N of None \<Rightarrow> None
              | Some pw \<Rightarrow> if pw = 1 then Some (Found ?x) else cf_search a N q (p smod q) ?f)
        else cf_search a N q (p smod q) ?f) = Some (Found x)"
      by (subst (asm) cf_search.simps) (simp add: Let_def)
    show ?thesis
    proof (cases "?x \<ge> N")
      case True
      with r show ?thesis by simp
    next
      case ge: False
      show ?thesis
      proof (cases "?x = 0")
        case True
        with r ge have c: "cf_search a N q (p smod q) ?f = Some (Found x)" by simp
        from True have nn: "\<not> ?x \<noteq> 0" by simp
        from 1(2) [OF False refl refl ge nn c] show ?thesis .
      next
        case nz: False
        then obtain pw where pw: "power_ll a ?x N = Some pw"
          using r ge by (cases "power_ll a ?x N") auto
        show ?thesis
        proof (cases "pw = 1")
          case True
          with r ge nz pw show ?thesis by simp
        next
          case False
          with r ge nz pw have c: "cf_search a N q (p smod q) ?f = Some (Found x)" by simp
          from 1(1) [OF \<open>q \<noteq> 0\<close> refl refl ge nz pw False c] show ?thesis .
        qed
      qed
    qed
  qed
qed

lemma attempt_Found: "attempt a N gl = Some (Found x, gl') \<Longrightarrow> x \<noteq> 0"
  unfolding attempt_def Let_def
  by (auto simp add: bind_eq_Some_conv dest: cf_search_Found)

lemma attempts_result:
  "attempts K a N gl = Some (r, gl') \<Longrightarrow>
     (r = 0 \<longrightarrow> after_attempts K a N gl = Some gl') \<and>
     (r \<noteq> 0 \<longrightarrow> (\<exists>k<K. \<exists>glk. after_attempts k a N gl = Some glk \<and>
                      attempt a N glk = Some (Found r, gl')))"
proof (induction K arbitrary: gl)
  case 0
  then show ?case by simp
next
  case (Suc K)
  show ?case
  proof (cases "attempt a N gl")
    case None
    with Suc.prems show ?thesis by simp
  next
    case (Some res)
    obtain c g1 where res: "res = (c, g1)" by (cases res)
    show ?thesis
    proof (cases c)
      case (Found x)
      with Some res Suc.prems have e: "x = r" "g1 = gl'" by simp_all
      from Some res Found e have at: "attempt a N gl = Some (Found r, gl')" by simp
      from attempt_Found [OF at] have "r \<noteq> 0" .
      moreover have "after_attempts 0 a N gl = Some gl" by simp
      ultimately show ?thesis using at by blast
    next
      case Exhausted
      with Some res Suc.prems have rec: "attempts K a N g1 = Some (r, gl')" by simp
      from Exhausted Some res have aa: "after_attempts (Suc k) a N gl = after_attempts k a N g1" for k
        by simp
      from Suc.IH [OF rec] have ih0: "r = 0 \<longrightarrow> after_attempts K a N g1 = Some gl'"
        and ih1: "r \<noteq> 0 \<longrightarrow> (\<exists>k<K. \<exists>glk. after_attempts k a N g1 = Some glk \<and>
                      attempt a N glk = Some (Found r, gl'))" by simp_all
      have "r \<noteq> 0 \<longrightarrow> (\<exists>k<Suc K. \<exists>glk. after_attempts k a N gl = Some glk \<and>
                      attempt a N glk = Some (Found r, gl'))"
      proof
        assume "r \<noteq> 0"
        with ih1 obtain k glk where k: "k < K" "after_attempts k a N g1 = Some glk"
          "attempt a N glk = Some (Found r, gl')" by blast
        then have "Suc k < Suc K" "after_attempts (Suc k) a N gl = Some glk"
          by (simp_all only: aa Suc_less_eq)
        with k(3) show "\<exists>k<Suc K. \<exists>glk. after_attempts k a N gl = Some glk \<and>
                      attempt a N glk = Some (Found r, gl')" by blast
      qed
      with ih0 show ?thesis by (simp only: aa)
    qed
  qed
qed

lemma factor_unfold:
  assumes "2 \<le> n" "n < 2 ^ 63"
    and a: "a = int (unat (fst (rnd gl)) mod nat (n - 1)) + 1" and gl1: "gl1 = snd (rnd gl)"
  shows "factor n gl =
     (if 1 < gcd n a then Some (gcd n a, n div gcd n a)
      else (case shor_quantum_part a n gl1 of None \<Rightarrow> None
            | Some (r, gl2) \<Rightarrow> if r = 0 \<or> odd r then factor n gl2 else post_process a r n))"
proof -
  obtain r0 g1 where rg: "rnd gl = (r0, g1)" by (cases "rnd gl")
  from base_draw [OF assms(1,2), of r0]
  have k0: "(word_of_int (n - 1) :: 64 word) \<noteq> 0"
    and s: "sint (r0 mod word_of_int (n - 1) + 1) = a"
    using rg a by simp_all
  have a1: "1 \<le> a" using a by simp
  have g: "gcd_ll n a = gcd n a" using assms(1) a1 by (simp add: gcd_ll_eq)
  have gpos: "0 < gcd n a" using assms(1) by (simp add: gcd_pos_int)
  have d: "div_ll n (gcd n a) = Some (n div gcd n a)"
    using gpos assms(1) by (simp add: div_ll_def sdiv_nonneg)
  show ?thesis
    by (subst factor.simps) (simp only: rg prod.case k0 if_False s Let_def g d gl1 snd_conv
        option.map)
qed

subsection \<open>The support of the state during an attempt\<close>

lemma find_n_mono: "n \<le> find_n n N"
proof (induction n N rule: find_n.induct)
  case (1 n N)
  show ?case
  proof (cases "2 ^ n < N")
    case True
    with 1 have "Suc n \<le> find_n (Suc n) N" by simp
    with True show ?thesis by (subst find_n.simps) simp
  next
    case False
    then show ?thesis by (subst find_n.simps) simp
  qed
qed

lemma find_n_pos: "2 \<le> N \<Longrightarrow> 0 < find_n 0 N"
proof -
  assume "2 \<le> N"
  then have "find_n 0 N = find_n (Suc 0) N" by (subst find_n.simps) simp
  with find_n_mono [of "Suc 0" N] show ?thesis by simp
qed

lemma normsq_basis: "normsq ((replicate L 0)[0 := 1]) = (if 0 < L then 1 else 0)"
proof -
  have "normsq ((replicate L 0)[0 := 1])
      = (\<Sum>t<L. (cmod ((replicate L (0::complex))[0 := 1] ! t))\<^sup>2)"
    by (simp add: normsq_sum)
  also have "\<dots> = (\<Sum>t<L. if t = 0 then 1 else 0)"
    by (rule sum.cong) (auto simp add: nth_list_update)
  also have "\<dots> = (if 0 < L then 1 else 0)"
    by (simp add: sum.delta')
  finally show ?thesis .
qed

lemma drop_bit_flip_low: "p < m \<Longrightarrow> drop_bit m (t XOR 2 ^ p) = drop_bit m (t::nat)"
  by (rule bit_eqI) (auto simp add: bit_simps)

lemma drop_bit_flip_at: "drop_bit m (t XOR 2 ^ m) = drop_bit m (t::nat) XOR 1"
  by (rule bit_eqI) (auto simp add: bit_simps)

lemma xor_one_zero: "(x::nat) XOR 1 = 0 \<Longrightarrow> x = 1"
proof -
  assume "x XOR 1 = 0"
  then have "(x XOR 1) XOR 1 = 0 XOR 1" by simp
  then show ?thesis by (simp add: xor.assoc)
qed

lemma prepare_result:
  assumes N: "2 \<le> N" and small: "3 * find_n 0 N < 31"
  shows "\<exists>st2. shor_prepare N = Some st2 \<and> wf_state st2 \<and> qn st2 = 3 * find_n 0 N \<and>
           normsq (qa st2) = 1 \<and>
           (\<forall>s<2 ^ (3 * find_n 0 N). qa st2 ! s \<noteq> 0 \<longrightarrow> drop_bit (2 * find_n 0 N) s = 1)"
proof -
  define n where "n = find_n 0 N"
  define m where "m = 2 * n"
  have n0: "0 < n" unfolding n_def using N by (rule find_n_pos)
  have q: "m + n = 3 * n" by (simp add: m_def)
  have mn: "m + n < 31" using small by (simp add: m_def n_def)
  let ?L = "(2::nat) ^ (m + n)"
  let ?st0 = "\<lparr>qn = m + n, qa = (replicate ?L (0::complex))[0 := 1]\<rparr>"
  let ?P = "\<lambda>s. wf_state s \<and> qn s = m + n \<and> normsq (qa s) = 1 \<and>
      (\<forall>t<?L. qa s ! t \<noteq> 0 \<longrightarrow> drop_bit m t = 0)"
  have new: "Qubits_new (m + n) = Some ?st0" using mn by (simp add: Qubits_new_def)
  have P0: "?P ?st0"
    using mn by (auto simp add: wf_state_def normsq_basis nth_list_update)
  have "\<exists>s'. for_each [0..<m] (apply_gate H) ?st0 = Some s' \<and> ?P s'"
  proof (rule for_each_invariant [where P = ?P])
    show "?P ?st0" by (fact P0)
  next
    fix i s assume i: "i \<in> set [0..<m]" and P: "?P s"
    from P have len: "length (qa s) = 2 ^ qn s" and qs: "qn s = m + n"
      by (simp_all add: wf_state_def)
    from i qs have p: "i < qn s" and im: "i < m" by simp_all
    have T: "length H = 2" "length (H ! 0) = 2" "length (H ! 1) = 2"
      by (simp_all add: H_def)
    from apply_gate_result [OF len p T] obtain s' where
      s': "apply_gate H i s = Some s'" "qn s' = qn s" "length (qa s') = 2 ^ qn s"
      and g: "\<forall>t<2 ^ qn s. qa s' ! t =
              H ! (if bit t i then 1 else 0) ! (if bit t i then 1 else 0) * qa s ! t +
              H ! (if bit t i then 1 else 0) ! (if bit t i then 0 else 1) * qa s ! (t XOR 2 ^ i)"
      by blast
    from apply_gate_H_normsq [OF len p] s'(1) have nrm: "normsq (qa s') = normsq (qa s)"
      by auto
    have sup: "drop_bit m t = 0" if t: "t < ?L" and nz: "qa s' ! t \<noteq> 0" for t
    proof -
      have F: "t XOR 2 ^ i < ?L" using flip_less [OF p, of t] t qs by simp
      from g t qs nz have "qa s ! t \<noteq> 0 \<or> qa s ! (t XOR 2 ^ i) \<noteq> 0"
        by (cases "qa s ! t = 0"; cases "qa s ! (t XOR 2 ^ i) = 0") simp_all
      then show ?thesis
      proof
        assume "qa s ! t \<noteq> 0"
        with P t show ?thesis by blast
      next
        assume "qa s ! (t XOR 2 ^ i) \<noteq> 0"
        with P F have "drop_bit m (t XOR 2 ^ i) = 0" by blast
        then show ?thesis by (simp only: drop_bit_flip_low [OF im])
      qed
    qed
    from P s' nrm sup show "\<exists>s'. apply_gate H i s = Some s' \<and> ?P s'"
      by (auto simp add: wf_state_def)
  qed
  then obtain st1 where st1: "for_each [0..<m] (apply_gate H) ?st0 = Some st1" "?P st1"
    by blast
  from st1(2) have len1: "length (qa st1) = 2 ^ qn st1" and q1: "qn st1 = m + n"
    by (simp_all add: wf_state_def)
  have pm: "m < qn st1" using q1 n0 by simp
  from apply_gate_X [OF len1 pm] obtain st2 where
    st2: "apply_gate X m st1 = Some st2" "qn st2 = qn st1" "length (qa st2) = 2 ^ qn st1"
    and gx: "\<forall>t<2 ^ qn st1. qa st2 ! t = qa st1 ! (t XOR 2 ^ m)"
    by blast
  from apply_gate_X_normsq [OF len1 pm] st2(1) have nrm2: "normsq (qa st2) = normsq (qa st1)"
    by auto
  have sup2: "drop_bit m t = 1" if t: "t < ?L" and nz: "qa st2 ! t \<noteq> 0" for t
  proof -
    have F: "t XOR 2 ^ m < ?L" using flip_less [OF pm, of t] t q1 by simp
    from gx t q1 nz have "qa st1 ! (t XOR 2 ^ m) \<noteq> 0" by simp
    with st1(2) F have "drop_bit m (t XOR 2 ^ m) = 0" by blast
    then have "drop_bit m t XOR 1 = 0" by (simp only: drop_bit_flip_at)
    then show ?thesis by (rule xor_one_zero)
  qed
  have prep: "shor_prepare N = Some st2"
    unfolding shor_prepare_def Let_def n_def [symmetric] m_def [symmetric]
    by (simp add: new st1(1) st2(1))
  have "wf_state st2" using st2(2,3) q1 mn by (simp add: wf_state_def)
  moreover have "qn st2 = 3 * n" using st2(2) q1 q by simp
  moreover have "normsq (qa st2) = 1" using nrm2 st1(2) by simp
  moreover have "\<forall>s<2 ^ (3 * n). qa st2 ! s \<noteq> 0 \<longrightarrow> drop_bit m s = 1"
    using sup2 q by simp
  ultimately show ?thesis using prep unfolding n_def m_def by blast
qed

lemma mul_graph_step:
  assumes n: "qn st = 3 * k" and len: "length (qa st) = 2 ^ (3 * k)"
    and N: "0 < N" "N \<le> 2 ^ k"
    and sup: "second_reg_below (2 * k) N (qa st)"
    and G: "low_determines (2 * k) (qa st)"
  shows "\<exists>st'. mul st con a N = Some st' \<and> qn st' = qn st \<and> length (qa st') = 2 ^ (3 * k) \<and>
     normsq (qa st') = normsq (qa st) \<and> second_reg_below (2 * k) N (qa st') \<and>
     low_determines (2 * k) (qa st') \<and>
     supp_inj (2 * k) con (a ^ (2 ^ Suc con) mod N) N (qa st)"
proof -
  let ?v = "a ^ (2 ^ Suc con) mod N"
  let ?L = "(2::nat) ^ (3 * k)"
  let ?f = "mul_target (2 * k) con ?v N"
  have v0: "0 \<le> ?v" using N(1) by simp
  from mul_result [OF n len N, of con a]
  obtain st' where st': "mul st con a N = Some st'" "qn st' = qn st" "length (qa st') = ?L"
    and g: "\<forall>t<?L. qa st' ! t = (\<Sum>s<?L. if ?f s = t then qa st ! s else 0)"
    by blast
  have inj: "s = s'" if "s < ?L" "s' < ?L" "qa st ! s \<noteq> 0" "qa st ! s' \<noteq> 0" "?f s = ?f s'" for s s'
  proof -
    have "take_bit (2 * k) s = take_bit (2 * k) s'"
      using mul_target_low [of "2 * k" con ?v N s] mul_target_low [of "2 * k" con ?v N s'] that(5)
      by simp
    with G that(1-4) len show ?thesis unfolding low_determines_def by simp
  qed
  have rng: "?f s < ?L" if "s < ?L" for s
    using N v0 that by (rule mul_target_range)
  have src: "\<exists>s<?L. ?f s = t \<and> qa st ! s \<noteq> 0" if "t < ?L" "qa st' ! t \<noteq> 0" for t
  proof -
    from g that have "(\<Sum>s<?L. if ?f s = t then qa st ! s else 0) \<noteq> 0" by simp
    from sum_nonzero_term [OF this] show ?thesis by (auto split: if_splits)
  qed
  have "normsq (qa st') = (\<Sum>t<?L. (cmod (qa st' ! t))\<^sup>2)"
    by (simp add: normsq_sum st'(3))
  also have "\<dots> = (\<Sum>t<?L. (cmod (\<Sum>s<?L. if ?f s = t then qa st ! s else 0))\<^sup>2)"
    by (rule sum.cong) (use g in auto)
  also have "\<dots> = (\<Sum>s<?L. (cmod (qa st ! s))\<^sup>2)"
    by (rule scatter_norm) (use inj rng in blast)+
  also have "\<dots> = normsq (qa st)"
    by (simp add: normsq_sum len)
  finally have nrm: "normsq (qa st') = normsq (qa st)" .
  have sup': "second_reg_below (2 * k) N (qa st')"
    using n len N sup st'(1) by (rule mul_support)
  have G': "low_determines (2 * k) (qa st')"
    unfolding low_determines_def
  proof (intro allI impI)
    fix t t' assume t: "t < length (qa st')" and t': "t' < length (qa st')"
      and h: "qa st' ! t \<noteq> 0 \<and> qa st' ! t' \<noteq> 0 \<and> take_bit (2 * k) t = take_bit (2 * k) t'"
    from src [of t] t h st'(3) obtain s where s: "s < ?L" "?f s = t" "qa st ! s \<noteq> 0" by auto
    from src [of t'] t' h st'(3) obtain s' where s': "s' < ?L" "?f s' = t'" "qa st ! s' \<noteq> 0" by auto
    have "take_bit (2 * k) s = take_bit (2 * k) t"
      using mul_target_low [of "2 * k" con ?v N s] s(2) by simp
    moreover have "take_bit (2 * k) s' = take_bit (2 * k) t'"
      using mul_target_low [of "2 * k" con ?v N s'] s'(2) by simp
    ultimately have "take_bit (2 * k) s = take_bit (2 * k) s'" using h by simp
    with G s(1,3) s'(1,3) len have "s = s'" unfolding low_determines_def by simp
    with s(2) s'(2) show "t = t'" by simp
  qed
  have si: "supp_inj (2 * k) con ?v N (qa st)"
    unfolding supp_inj_def using inj len by auto
  from st' nrm sup' G' si show ?thesis by blast
qed

lemma mul_loop:
  assumes n: "qn st = 3 * k" and len: "length (qa st) = 2 ^ (3 * k)"
    and N: "0 < N" "N \<le> 2 ^ k" and small: "3 * k < 31"
    and sup: "second_reg_below (2 * k) N (qa st)"
    and G: "low_determines (2 * k) (qa st)"
  shows "\<exists>st'. for_each [0..<j] (\<lambda>i st. mul st i a N) st = Some st' \<and> wf_state st' \<and>
     qn st' = 3 * k \<and> normsq (qa st') = normsq (qa st) \<and>
     second_reg_below (2 * k) N (qa st') \<and> low_determines (2 * k) (qa st')"
proof -
  let ?P = "\<lambda>s. wf_state s \<and> qn s = 3 * k \<and> normsq (qa s) = normsq (qa st) \<and>
     second_reg_below (2 * k) N (qa s) \<and> low_determines (2 * k) (qa s)"
  have "\<exists>s'. for_each [0..<j] (\<lambda>i st. mul st i a N) st = Some s' \<and> ?P s'"
  proof (rule for_each_invariant [where P = ?P])
    show "?P st" using n len small sup G by (simp add: wf_state_def)
  next
    fix i s assume P: "?P s"
    then have l: "length (qa s) = 2 ^ (3 * k)" and q: "qn s = 3 * k"
      by (simp_all add: wf_state_def)
    from P have sp: "second_reg_below (2 * k) N (qa s)" and lg: "low_determines (2 * k) (qa s)"
      by simp_all
    from mul_graph_step [OF q l N sp lg, of i a] P small
    show "\<exists>s'. mul s i a N = Some s' \<and> ?P s'"
      by (auto simp add: wf_state_def)
  qed
  then show ?thesis by blast
qed

lemma for_each_append:
  "for_each (xs @ ys) f b = Option.bind (for_each xs f b) (for_each ys f)"
  by (induction xs arbitrary: b) (simp_all split: option.split)

lemma dist_rnd_range: "0 \<le> fst (dist_rnd gl) \<and> fst (dist_rnd gl) < 1"
proof -
  have "unat (rnd_g gl 0) < 2 ^ LENGTH(64)" by (rule unsigned_less)
  then have "real (unat (rnd_g gl 0)) < real (2 ^ LENGTH(64))"
    by (simp only: of_nat_less_iff)
  then have "real (unat (rnd_g gl 0)) < 2 ^ 64" by simp
  moreover have "0 \<le> real (unat (rnd_g gl 0))" by (rule of_nat_0_le_iff)
  ultimately show ?thesis by (simp add: dist_rnd_def)
qed

lemma dist_rnd_arrays:
  "rev_g (snd (dist_rnd gl)) = rev_g gl \<and> buf_g (snd (dist_rnd gl)) = buf_g gl"
  by (simp add: dist_rnd_def)

lemma take_bit_Suc_or:
  "take_bit (Suc j) x = take_bit j x OR push_bit j (if bit x j then 1 else 0)" for x :: nat
  by (rule bit_eqI) (auto simp add: bit_simps less_Suc_eq)

lemma measure_rnd_result:
  assumes wf: "wf_state st"
  shows "\<exists>d st'. measure_rnd p st gl = Some (d, st', snd (dist_rnd gl)) \<and> d < 2 \<and>
           wf_state st' \<and> qn st' = qn st \<and>
           (normsq (qa st) = 1 \<longrightarrow> normsq (qa st') = 1) \<and>
           (\<forall>s<length (qa st). qa st' ! s \<noteq> 0 \<longrightarrow>
              qa st ! s \<noteq> 0 \<and> (if bit s p then 1 else 0) = d)"
proof -
  define u where "u = fst (dist_rnd gl)"
  define d where "d = (if u < marginal p 1 (qa st) then 1 else 0 :: nat)"
  have len: "length (qa st) = 2 ^ qn st" and n31: "qn st < 31"
    using wf by (simp_all add: wf_state_def)
  have u: "0 \<le> u" "u < 1" using dist_rnd_range [of gl] by (simp_all add: u_def)
  from measure_result [OF len d_def]
  obtain st' where st': "measure_qubit p u st = Some (d, st')" "qn st' = qn st"
    "length (qa st') = 2 ^ qn st"
    and g: "\<forall>t<2 ^ qn st. qa st' ! t =
              (if (if bit t p then 1 else 0) = d
               then qa st ! t / complex_of_real (sqrt (marginal p d (qa st))) else 0)"
    by blast
  have nrm: "normsq (qa st') = 1" if "normsq (qa st) = 1"
    using measure_unit [OF len that u d_def] st'(1) by auto
  have sup: "qa st ! s \<noteq> 0 \<and> (if bit s p then 1 else 0) = d"
    if "s < length (qa st)" "qa st' ! s \<noteq> 0" for s
    using g that len by (auto split: if_splits)
  have "measure_rnd p st gl = Some (d, st', snd (dist_rnd gl))"
    by (simp add: measure_rnd_def split_beta u_def [symmetric] st'(1))
  moreover have "d < 2" by (simp add: d_def)
  moreover have "wf_state st'" using st'(2,3) n31 by (simp add: wf_state_def)
  ultimately show ?thesis using st'(2) nrm sup by blast
qed

lemma measure_bits_prefix:
  assumes wf: "wf_state st"
  shows "\<exists>t st' gl'. measure_bits [lo..<lo + j] lo st gl = Some (t, st', gl') \<and>
           wf_state st' \<and> qn st' = qn st \<and>
           (normsq (qa st) = 1 \<longrightarrow> normsq (qa st') = 1) \<and>
           (\<forall>s<length (qa st). qa st' ! s \<noteq> 0 \<longrightarrow>
              qa st ! s \<noteq> 0 \<and> int (take_bit j (drop_bit lo s)) = t) \<and>
           rev_g gl' = rev_g gl \<and> buf_g gl' = buf_g gl"
proof (induction j)
  case 0
  show ?case using wf by (simp add: measure_bits_def)
next
  case (Suc j)
  let ?F = "\<lambda>i (t, st, gl).
          case measure_rnd i st gl of None \<Rightarrow> None
          | Some (d, st', gl') \<Rightarrow> Some (t OR push_bit (i - lo) (int d), st', gl')"
  from Suc obtain t st1 gl1 where
    pre: "measure_bits [lo..<lo + j] lo st gl = Some (t, st1, gl1)"
    and wf1: "wf_state st1" and q1: "qn st1 = qn st"
    and n1: "normsq (qa st) = 1 \<longrightarrow> normsq (qa st1) = 1"
    and s1: "\<forall>s<length (qa st). qa st1 ! s \<noteq> 0 \<longrightarrow>
              qa st ! s \<noteq> 0 \<and> int (take_bit j (drop_bit lo s)) = t"
    and a1: "rev_g gl1 = rev_g gl" "buf_g gl1 = buf_g gl"
    by blast
  from measure_rnd_result [OF wf1, of "lo + j" gl1] obtain d st2 where
    m: "measure_rnd (lo + j) st1 gl1 = Some (d, st2, snd (dist_rnd gl1))" and d2: "d < 2"
    and wf2: "wf_state st2" and q2: "qn st2 = qn st1"
    and n2: "normsq (qa st1) = 1 \<longrightarrow> normsq (qa st2) = 1"
    and s2: "\<forall>s<length (qa st1). qa st2 ! s \<noteq> 0 \<longrightarrow>
              qa st1 ! s \<noteq> 0 \<and> (if bit s (lo + j) then 1 else 0) = d"
    by blast
  have l: "length (qa st1) = length (qa st)"
    using wf wf1 q1 by (simp add: wf_state_def)
  have split: "[lo..<lo + Suc j] = [lo..<lo + j] @ [lo + j]" by simp
  have run: "measure_bits [lo..<lo + Suc j] lo st gl
      = Some (t OR push_bit j (int d), st2, snd (dist_rnd gl1))"
    using pre m unfolding measure_bits_def split for_each_append by simp
  have sup: "qa st ! s \<noteq> 0 \<and> int (take_bit (Suc j) (drop_bit lo s)) = t OR push_bit j (int d)"
    if s: "s < length (qa st)" and nz: "qa st2 ! s \<noteq> 0" for s
  proof -
    from s2 s l nz have a: "qa st1 ! s \<noteq> 0" and b: "(if bit s (lo + j) then 1 else 0) = d"
      by simp_all
    from s1 s a have c: "qa st ! s \<noteq> 0" and e: "int (take_bit j (drop_bit lo s)) = t"
      by simp_all
    have "bit (drop_bit lo s) j = bit s (lo + j)" by (simp add: bit_drop_bit_eq add.commute)
    with b have "(if bit (drop_bit lo s) j then 1 else 0) = d" by simp
    then have "take_bit (Suc j) (drop_bit lo s) = take_bit j (drop_bit lo s) OR push_bit j d"
      by (simp only: take_bit_Suc_or)
    then have "int (take_bit (Suc j) (drop_bit lo s))
        = int (take_bit j (drop_bit lo s)) OR push_bit j (int d)"
      by (simp only: of_nat_or_eq of_nat_push_bit)
    with c e show ?thesis by simp
  qed
  from run wf2 q1 q2 n1 n2 sup a1 dist_rnd_arrays [of gl1] show ?case
    by (intro exI [of _ "t OR push_bit j (int d)"] exI [of _ st2]
        exI [of _ "snd (dist_rnd gl1)"] conjI) auto
qed

lemma normsq_nonzero: "normsq v = 1 \<Longrightarrow> \<exists>s<length v. v ! s \<noteq> 0"
proof (rule ccontr)
  assume one: "normsq v = 1" and no: "\<not> (\<exists>s<length v. v ! s \<noteq> 0)"
  then have "(\<Sum>t<length v. (cmod (v ! t))\<^sup>2) = (\<Sum>t<length v. 0)"
    by (intro sum.cong) auto
  with one show False by (simp add: normsq_sum)
qed

lemma hi_small: "s < 2 ^ (3 * k) \<Longrightarrow> drop_bit (2 * k) s < (2::nat) ^ k"
proof -
  assume s: "s < 2 ^ (3 * k)"
  have "(2::nat) ^ (3 * k) = 2 ^ k * 2 ^ (2 * k)" by (simp add: power_add [symmetric])
  with s have "s < 2 ^ k * 2 ^ (2 * k)" by simp
  then have "s div 2 ^ (2 * k) < 2 ^ k" by (rule less_mult_imp_div_less)
  then show ?thesis by (simp add: drop_bit_eq_div)
qed

lemma prepare_graph:
  assumes N: "2 \<le> N" and small: "3 * find_n 0 N < 31"
  shows "\<exists>st2. shor_prepare N = Some st2 \<and> wf_state st2 \<and> qn st2 = 3 * find_n 0 N \<and>
           normsq (qa st2) = 1 \<and> second_reg_below (2 * find_n 0 N) N (qa st2) \<and>
           low_determines (2 * find_n 0 N) (qa st2)"
proof -
  from prepare_result [OF N small] obtain st2 where
    p: "shor_prepare N = Some st2" "wf_state st2" "qn st2 = 3 * find_n 0 N"
      "normsq (qa st2) = 1"
    and s: "\<forall>s<2 ^ (3 * find_n 0 N). qa st2 ! s \<noteq> 0 \<longrightarrow> drop_bit (2 * find_n 0 N) s = 1"
    by blast
  have len: "length (qa st2) = 2 ^ (3 * find_n 0 N)"
    using p(2,3) by (simp add: wf_state_def)
  have a: "second_reg_below (2 * find_n 0 N) N (qa st2)"
    unfolding second_reg_below_def len using s N by auto
  have b: "low_determines (2 * find_n 0 N) (qa st2)"
    unfolding low_determines_def len
  proof (intro allI impI)
    fix x y
    assume "x < 2 ^ (3 * find_n 0 N)" "y < 2 ^ (3 * find_n 0 N)"
      and h: "qa st2 ! x \<noteq> 0 \<and> qa st2 ! y \<noteq> 0 \<and>
         take_bit (2 * find_n 0 N) x = take_bit (2 * find_n 0 N) y"
    with s have "drop_bit (2 * find_n 0 N) x = drop_bit (2 * find_n 0 N) y" by simp
    with h show "x = y" by (auto intro: idx_eqI)
  qed
  from p a b show ?thesis by blast
qed

lemma measured_second:
  assumes wf: "wf_state st3" and n: "qn st3 = 3 * k" and unit: "normsq (qa st3) = 1"
    and sup: "second_reg_below (2 * k) N (qa st3)"
  shows "\<exists>t st4 gl1. measure_bits [2 * k..<2 * k + k] (2 * k) st3 gl = Some (t, st4, gl1) \<and>
           wf_state st4 \<and> qn st4 = 3 * k \<and> 0 \<le> t \<and> t < N \<and> nat t < 2 ^ k \<and>
           (\<forall>s<2 ^ (3 * k). qa st4 ! s \<noteq> 0 \<longrightarrow> drop_bit (2 * k) s = nat t) \<and>
           rev_g gl1 = rev_g gl"
proof -
  have len: "length (qa st3) = 2 ^ (3 * k)" using wf n by (simp add: wf_state_def)
  from measure_bits_prefix [OF wf, of "2 * k" k gl] obtain t st4 gl1 where
    m: "measure_bits [2 * k..<2 * k + k] (2 * k) st3 gl = Some (t, st4, gl1)"
    and wf4: "wf_state st4" and q4: "qn st4 = qn st3"
    and n4: "normsq (qa st3) = 1 \<longrightarrow> normsq (qa st4) = 1"
    and s4: "\<forall>s<length (qa st3). qa st4 ! s \<noteq> 0 \<longrightarrow>
              qa st3 ! s \<noteq> 0 \<and> int (take_bit k (drop_bit (2 * k) s)) = t"
    and r: "rev_g gl1 = rev_g gl"
    by blast
  have len4: "length (qa st4) = 2 ^ (3 * k)" using wf4 q4 n by (simp add: wf_state_def)
  have val: "qa st3 ! s \<noteq> 0 \<and> int (drop_bit (2 * k) s) = t"
    if "s < 2 ^ (3 * k)" "qa st4 ! s \<noteq> 0" for s
  proof -
    from hi_small [OF that(1)] have e: "take_bit k (drop_bit (2 * k) s) = drop_bit (2 * k) s"
      by (simp add: take_bit_nat_eq_self)
    from that len have "s < length (qa st3)" by simp
    with s4 that(2) have "qa st3 ! s \<noteq> 0 \<and> int (take_bit k (drop_bit (2 * k) s)) = t"
      by blast
    then show ?thesis unfolding e .
  qed
  from n4 unit have "normsq (qa st4) = 1" by simp
  from normsq_nonzero [OF this] len4 obtain s0 where
    s0: "s0 < 2 ^ (3 * k)" "qa st4 ! s0 \<noteq> 0" by auto
  from val [OF s0] have t: "qa st3 ! s0 \<noteq> 0" "int (drop_bit (2 * k) s0) = t" by simp_all
  from sup s0(1) t(1) len have "int (drop_bit (2 * k) s0) < N"
    by (simp add: second_reg_below_def)
  with t(2) have tN: "t < N" by simp
  from t(2) have t0: "0 \<le> t" by auto
  from t(2) have "nat t = drop_bit (2 * k) s0" by auto
  with hi_small [OF s0(1)] have tk: "nat t < 2 ^ k" by simp
  have all: "\<forall>s<2 ^ (3 * k). qa st4 ! s \<noteq> 0 \<longrightarrow> drop_bit (2 * k) s = nat t"
  proof (intro allI impI)
    fix s :: nat
    assume "s < 2 ^ (3 * k)" "qa st4 ! s \<noteq> 0"
    from val [OF this] have "int (drop_bit (2 * k) s) = t" by simp
    then show "drop_bit (2 * k) s = nat t" by linarith
  qed
  have q: "qn st4 = 3 * k" using q4 n by simp
  from m wf4 q t0 tN tk all r show ?thesis
    by (intro exI [of _ t] exI [of _ st4] exI [of _ gl1] conjI)
qed

lemma lim_maxs: "3 * k < 31 \<Longrightarrow> (2::nat) ^ (2 * k) < maxs"
proof -
  assume "3 * k < 31"
  then have "2 * k \<le> 20" by simp
  then have "(2::nat) ^ (2 * k) \<le> 2 ^ 20" by (rule power_increasing) simp
  then show ?thesis by (simp add: maxs_def)
qed

lemma rev_fill_prefix:
  assumes m: "2 ^ m \<le> maxs" and r0: "rev_g gl 0 = 0" and k: "Suc 0 \<le> k" "k \<le> 2 ^ m"
  shows "\<exists>gl2. for_each [Suc 0..<k]
           (\<lambda>i gl.
              do {
                r \<leftarrow> arr_get maxs (rev_g gl) (drop_bit 1 i);
                rv \<leftarrow> arr_set maxs i (r OR push_bit (m - 1) (i AND 1)) (rev_g gl);
                Some (gl\<lparr>rev_g := rv\<rparr>)
              }) gl = Some gl2 \<and>
           (\<forall>i<k. rev_g gl2 i = 0 \<or> rev_g gl2 i = 2 ^ (m - 1)) \<and> rev_g gl2 0 = 0 \<and>
           buf_g gl2 = buf_g gl \<and> rnd_g gl2 = rnd_g gl"
  using k
proof (induction k)
  case 0
  then show ?case by simp
next
  case (Suc k)
  let ?F = "\<lambda>i gl.
              do {
                r \<leftarrow> arr_get maxs (rev_g gl) (drop_bit 1 i);
                rv \<leftarrow> arr_set maxs i (r OR push_bit (m - 1) (i AND 1)) (rev_g gl);
                Some (gl\<lparr>rev_g := rv\<rparr>)
              }"
  show ?case
  proof (cases "k = 0")
    case True
    then show ?thesis using r0 by simp
  next
    case False
    then have k1: "Suc 0 \<le> k" by simp
    from Suc.prems have k2: "k \<le> 2 ^ m" "k < 2 ^ m" by simp_all
    from Suc.IH [OF k1 k2(1)] obtain gl1 where
      run: "for_each [Suc 0..<k] ?F gl = Some gl1"
      and inv: "\<forall>i<k. rev_g gl1 i = 0 \<or> rev_g gl1 i = 2 ^ (m - 1)"
      and z0: "rev_g gl1 0 = 0"
      and same: "buf_g gl1 = buf_g gl" "rnd_g gl1 = rnd_g gl"
      by blast
    have km: "k < maxs" "k div 2 < maxs" using k2(2) m by simp_all
    have "k div 2 < k" using False by simp
    with inv have r: "rev_g gl1 (k div 2) = 0 \<or> rev_g gl1 (k div 2) = 2 ^ (m - 1)" by simp
    define z where "z = rev_g gl1 (k div 2) OR push_bit (m - 1) (k AND 1)"
    have "k mod 2 = 0 \<or> k mod 2 = 1" by arith
    then have "k AND 1 = 0 \<or> k AND 1 = 1" by (simp only: and_one_eq)
    with r have z: "z = 0 \<or> z = 2 ^ (m - 1)"
      unfolding z_def by (auto simp add: push_bit_eq_mult)
    have step: "?F k gl1 = Some (gl1\<lparr>rev_g := (rev_g gl1)(k := z)\<rparr>)"
      using km by (simp add: arr_get_def arr_set_def drop_bit_eq_div z_def)
    have split: "[Suc 0..<Suc k] = [Suc 0..<k] @ [k]" using k1 by simp
    have "for_each [Suc 0..<Suc k] ?F gl = Some (gl1\<lparr>rev_g := (rev_g gl1)(k := z)\<rparr>)"
      unfolding split for_each_append run using step by simp
    moreover have "\<forall>i<Suc k. ((rev_g gl1)(k := z)) i = 0 \<or> ((rev_g gl1)(k := z)) i = 2 ^ (m - 1)"
      using inv z by (auto simp add: less_Suc_eq)
    ultimately show ?thesis using same z0 False by simp
  qed
qed

lemma rev_fill_result:
  assumes m: "2 ^ m \<le> maxs" and r0: "rev_g gl 0 = 0"
  shows "\<exists>gl2. rev_fill m gl = Some gl2 \<and> (\<forall>i<2 ^ m. rev_g gl2 i < 2 ^ m) \<and>
           rev_g gl2 0 = 0 \<and> buf_g gl2 = buf_g gl \<and> rnd_g gl2 = rnd_g gl"
proof -
  have one: "Suc 0 \<le> 2 ^ m" by simp
  from rev_fill_prefix [OF m r0 one order_refl] obtain gl2 where
    run: "rev_fill m gl = Some gl2"
    and inv: "\<forall>i<2 ^ m. rev_g gl2 i = 0 \<or> rev_g gl2 i = 2 ^ (m - 1)"
    and z0: "rev_g gl2 0 = 0"
    and same: "buf_g gl2 = buf_g gl" "rnd_g gl2 = rnd_g gl"
    unfolding rev_fill_def One_nat_def by blast
  have b: "rev_g gl2 i < 2 ^ m" if "i < 2 ^ m" for i
  proof (cases "m = 0")
    case True
    with that z0 show ?thesis by simp
  next
    case False
    then have "(2::nat) ^ (m - 1) < 2 ^ m" by (intro power_strict_increasing) simp_all
    with inv that show ?thesis by auto
  qed
  with run z0 same show ?thesis by blast
qed

lemma for_each_total:
  assumes "\<And>i s. i \<in> set is \<Longrightarrow> \<exists>s'. f i s = Some s'"
  shows "\<exists>s'. for_each is f st = Some s'"
proof -
  have "\<exists>s'. for_each is f st = Some s' \<and> True"
    by (rule for_each_invariant) (use assms in auto)
  then show ?thesis by simp
qed

lemma butterfly_total:
  assumes lm: "lm \<le> maxs"
  shows "\<exists>b'. butterfly lm mid b = Some b'"
  unfolding butterfly_def Let_def
proof (rule for_each_total)
  fix j :: nat and b0 :: "nat \<Rightarrow> complex"
  assume "j \<in> set (map (\<lambda>q. q * (2 * mid)) [0..<lm div (2 * mid)])"
  then obtain q where q: "q < lm div (2 * mid)" and j: "j = q * (2 * mid)" by auto
  from q have "Suc q \<le> lm div (2 * mid)" by simp
  then have "Suc q * (2 * mid) \<le> lm div (2 * mid) * (2 * mid)" by (rule mult_le_mono1)
  also have "\<dots> \<le> lm" by simp
  finally have top: "j + 2 * mid \<le> lm" using j by simp
  let ?w = "Complex (cos (pi / real mid)) (sin (pi / real mid))"
  let ?g = "\<lambda>k (b, p).
                   do {
                     u \<leftarrow> arr_get maxs b (j + k);
                     v \<leftarrow> arr_get maxs b (j + k + mid);
                     b1 \<leftarrow> arr_set maxs (j + k) (u + v) b;
                     b2 \<leftarrow> arr_set maxs (j + k + mid) (u - v) b1;
                     Some (b2, p * ?w)
                   }"
  have "\<exists>s'. for_each [0..<mid] ?g (b0, 1) = Some s'"
  proof (rule for_each_total)
    fix k :: nat and s :: "(nat \<Rightarrow> complex) \<times> complex"
    assume "k \<in> set [0..<mid]"
    then have "j + k + mid < maxs" "j + k < maxs" using top lm by simp_all
    then show "\<exists>s'. ?g k s = Some s'"
      by (cases s) (simp add: arr_get_def arr_set_def)
  qed
  then show "\<exists>s'. map_option fst (for_each [0..<mid] ?g (b0, 1)) = Some s'"
    by auto
qed

lemma low_index:
  "i < 2 ^ m \<Longrightarrow> i OR push_bit m t = push_bit m t OR take_bit m (i::nat)"
  by (simp add: take_bit_nat_eq_self or.commute)

lemma QFT_total:
  assumes wf: "wf_state st" and n: "qn st = 3 * k" and t: "t < 2 ^ k"
    and small: "3 * k < 31"
    and rv: "\<forall>i<2 ^ (2 * k). rev_g gl i < 2 ^ (2 * k)"
  shows "\<exists>st' gl'. QFT st (2 * k) t gl = Some (st', gl') \<and> wf_state st' \<and> qn st' = 3 * k \<and>
           (\<forall>s<2 ^ (3 * k). qa st' ! s \<noteq> 0 \<longrightarrow> qa st ! s \<noteq> 0 \<or> drop_bit (2 * k) s = t) \<and>
           rev_g gl' = rev_g gl \<and> rnd_g gl' = rnd_g gl"
proof -
  define m where "m = 2 * k"
  define L :: nat where "L = 2 ^ (3 * k)"
  have len: "length (qa st) = L" using wf n by (simp add: wf_state_def L_def)
  have lm: "(2::nat) ^ m < maxs" unfolding m_def by (rule lim_maxs [OF small])
  have mk: "m + k = 3 * k" by (simp add: m_def)
  have idx: "i OR push_bit m t < L" if "i < 2 ^ m" for i
    using idx_bound [OF t, of m i] unfolding low_index [OF that] mk L_def .
  have hi: "drop_bit m (i OR push_bit m t) = t" if "i < 2 ^ m" for i
    unfolding low_index [OF that] by (rule idx_hi)
  have "\<exists>b1. for_each [0..<2 ^ m]
          (\<lambda>i b. do { x \<leftarrow> get_at (qa st) (i OR push_bit m t); arr_set maxs i x b })
          (buf_g gl) = Some b1"
  proof (rule for_each_total)
    fix i :: nat and b :: "nat \<Rightarrow> complex"
    assume "i \<in> set [0..<2 ^ m]"
    then have i: "i < 2 ^ m" by simp
    with lm have "i < maxs" by simp
    with idx [OF i] len
    show "\<exists>s'. do { x \<leftarrow> get_at (qa st) (i OR push_bit m t); arr_set maxs i x b } = Some s'"
      by (simp add: get_at_def arr_set_def)
  qed
  then obtain b1 where b1: "for_each [0..<2 ^ m]
          (\<lambda>i b. do { x \<leftarrow> get_at (qa st) (i OR push_bit m t); arr_set maxs i x b })
          (buf_g gl) = Some b1" ..
  let ?swap = "\<lambda>i b.
                  do {
                    r \<leftarrow> arr_get maxs (rev_g gl) i;
                    if i < r
                    then do {
                      x \<leftarrow> arr_get maxs b i;
                      y \<leftarrow> arr_get maxs b r;
                      b' \<leftarrow> arr_set maxs i y b;
                      arr_set maxs r x b'
                    }
                    else Some b
                  }"
  have "\<exists>b2. for_each [0..<2 ^ m] ?swap b1 = Some b2"
  proof (rule for_each_total)
    fix i :: nat and b :: "nat \<Rightarrow> complex"
    assume "i \<in> set [0..<2 ^ m]"
    then have i: "i < 2 ^ m" by simp
    with rv have "rev_g gl i < 2 ^ m" by (simp add: m_def)
    with lm i have "i < maxs" "rev_g gl i < maxs" by simp_all
    then show "\<exists>s'. ?swap i b = Some s'"
      by (simp add: arr_get_def arr_set_def)
  qed
  then obtain b2 where b2: "for_each [0..<2 ^ m] ?swap b1 = Some b2" ..
  have "\<exists>b3. for_each (map (\<lambda>l. 2 ^ l) [0..<m]) (butterfly (2 ^ m)) b2 = Some b3"
    by (rule for_each_total) (rule butterfly_total, use lm in simp)
  then obtain b3 where b3: "for_each (map (\<lambda>l. 2 ^ l) [0..<m]) (butterfly (2 ^ m)) b2 = Some b3" ..
  have "\<exists>pr. for_each [0..<2 ^ m]
               (\<lambda>i pr. do { x \<leftarrow> arr_get maxs b3 i; Some (pr + (cmod x)\<^sup>2) })
               (0 :: real) = Some pr"
  proof (rule for_each_total)
    fix i :: nat and pr :: real
    assume "i \<in> set [0..<2 ^ m]"
    with lm have "i < maxs" by simp
    then show "\<exists>s'. do { x \<leftarrow> arr_get maxs b3 i; Some (pr + (cmod x)\<^sup>2) } = Some s'"
      by (simp add: arr_get_def)
  qed
  then obtain pr where pr: "for_each [0..<2 ^ m]
               (\<lambda>i pr. do { x \<leftarrow> arr_get maxs b3 i; Some (pr + (cmod x)\<^sup>2) })
               (0 :: real) = Some pr" ..
  let ?P = "\<lambda>a. length a = L \<and>
              (\<forall>s<L. a ! s \<noteq> 0 \<longrightarrow> qa st ! s \<noteq> 0 \<or> drop_bit m s = t)"
  let ?wr = "\<lambda>i a.
                  do {
                    x \<leftarrow> arr_get maxs b3 i;
                    set_at (i OR push_bit m t) (x / complex_of_real pr) a
                  }"
  have "\<exists>a'. for_each [0..<2 ^ m] ?wr (qa st) = Some a' \<and> ?P a'"
  proof (rule for_each_invariant)
    show "?P (qa st)" using len by simp
  next
    fix i :: nat and a :: vec
    assume "i \<in> set [0..<2 ^ m]" and P: "?P a"
    then have i: "i < 2 ^ m" by simp
    with lm have im: "i < maxs" by simp
    define a' where "a' = a[i OR push_bit m t := b3 i / complex_of_real pr]"
    have run: "?wr i a = Some a'"
      using im idx [OF i] P by (simp add: arr_get_def set_at_def a'_def)
    have "length a' = L" using P by (simp add: a'_def)
    moreover have "qa st ! s \<noteq> 0 \<or> drop_bit m s = t" if "s < L" "a' ! s \<noteq> 0" for s
    proof (cases "s = i OR push_bit m t")
      case True
      with hi [OF i] show ?thesis by simp
    next
      case False
      then have "a' ! s = a ! s" by (simp add: a'_def)
      with that P show ?thesis by simp
    qed
    ultimately show "\<exists>s'. ?wr i a = Some s' \<and> ?P s'" using run by blast
  qed
  then obtain a' where a': "for_each [0..<2 ^ m] ?wr (qa st) = Some a'" and Pa: "?P a'"
    by blast
  have run: "QFT st m t gl = Some (st\<lparr>qa := a'\<rparr>, gl\<lparr>buf_g := b3\<rparr>)"
    unfolding QFT_def Let_def b1 by (simp add: b2 b3 pr a')
  have "wf_state (st\<lparr>qa := a'\<rparr>)" using wf Pa len by (simp add: wf_state_def)
  with run Pa n show ?thesis unfolding m_def L_def by simp
qed


subsection \<open>Amplitudes that are not negative, and the first entry after \<open>QFT\<close>\<close>



























subsection \<open>The base drawn and the return of the quantum part\<close>

lemma drawn_base_eq:
  assumes "2 \<le> n" "n < 2 ^ 63"
  shows "drawn_base n r0 = int (unat r0 mod nat (n - 1)) + 1"
  unfolding drawn_base_def using base_draw [OF assms, of r0] by simp

lemma drawn_base_15: "drawn_base 15 w = int (unat w mod 14) + 1"
  using drawn_base_eq [of 15 w] by simp

lemma card_residue:
  fixes M d r q :: nat
  assumes d: "0 < d" and r: "r < d"
    and M: "\<And>k. (k * d + r < M) = (k < q)"
  shows "card {k. k < M \<and> k mod d = r} = q"
proof -
  have "{k. k < M \<and> k mod d = r} = (\<lambda>k. k * d + r) ` {..<q}"
  proof (intro set_eqI iffI)
    fix k assume "k \<in> {k. k < M \<and> k mod d = r}"
    then have k: "k < M" "k mod d = r" by simp_all
    have e: "k = (k div d) * d + r" using k(2) by (metis div_mult_mod_eq)
    with k(1) have "(k div d) * d + r < M" by simp
    then have "k div d < q" by (simp only: M)
    with e show "k \<in> (\<lambda>k. k * d + r) ` {..<q}" by blast
  next
    fix k assume "k \<in> (\<lambda>k. k * d + r) ` {..<q}"
    then obtain c where c: "c < q" "k = c * d + r" by auto
    from c(1) have "c * d + r < M" by (simp only: M)
    moreover have "(c * d + r) mod d = r" using r by simp
    ultimately show "k \<in> {k. k < M \<and> k mod d = r}" using c(2) by simp
  qed
  moreover have "inj_on (\<lambda>k. k * d + r) {..<q}"
    using d by (auto simp add: inj_on_def)
  ultimately show ?thesis by (simp add: card_image)
qed

lemma card_word_residue:
  "card {w :: 64 word. unat w mod d = r} = card {k. k < 2 ^ 64 \<and> k mod d = r}"
proof -
  have "{k. k < 2 ^ 64 \<and> k mod d = r} = unat ` {w :: 64 word. unat w mod d = r}"
  proof (intro set_eqI iffI)
    fix k :: nat assume "k \<in> {k. k < 2 ^ 64 \<and> k mod d = r}"
    then have k: "k < 2 ^ 64" "k mod d = r" by simp_all
    have "unat (word_of_nat k :: 64 word) = k"
      using k(1) by (simp add: unat_of_nat)
    with k(2) show "k \<in> unat ` {w :: 64 word. unat w mod d = r}"
      by (intro image_eqI [where x = "word_of_nat k"]) simp_all
  next
    fix k assume "k \<in> unat ` {w :: 64 word. unat w mod d = r}"
    then obtain w :: "64 word" where w: "k = unat w" "unat w mod d = r" by auto
    have "unat w < 2 ^ LENGTH(64)" by (rule unsigned_less)
    with w show "k \<in> {k. k < 2 ^ 64 \<and> k mod d = r}" by simp
  qed
  moreover have "inj_on unat {w :: 64 word. unat w mod d = r}"
    by (rule inj_onI) (simp only: word_unat_eq_iff)
  ultimately show ?thesis by (simp add: card_image)
qed

text \<open>
  C9.  The claim is that each base is drawn uniformly from \<open>[1, N - 1]\<close>.  The base is
  \<open>rnd() % (N - 1) + 1\<close>, and the \<open>2 ^ 64\<close> values of the engine are not spread evenly over
  the bases unless \<open>N - 1\<close> divides \<open>2 ^ 64\<close>: for \<open>N = 15\<close> the base \<open>1\<close> is computed from
  1317624576693539402 of them and the base \<open>14\<close> from 1317624576693539401.
\<close>

theorem drawn_base_not_uniform:
  "card {w. drawn_base 15 w = 1} = 1317624576693539402 \<and>
   card {w. drawn_base 15 w = 14} = 1317624576693539401"
proof -
  have a: "{w. drawn_base 15 w = 1} = {w. unat w mod 14 = 0}"
    by (auto simp add: drawn_base_15)
  have b: "{w. drawn_base 15 w = 14} = {w. unat w mod 14 = 13}"
    by (auto simp add: drawn_base_15)
  have c0: "card {k::nat. k < 2 ^ 64 \<and> k mod 14 = 0} = 1317624576693539402"
    by (rule card_residue) (simp_all, arith)
  have c13: "card {k::nat. k < 2 ^ 64 \<and> k mod 14 = 13} = 1317624576693539401"
    by (rule card_residue) (simp_all, arith)
  show ?thesis unfolding a b card_word_residue c0 c13 by simp
qed

lemma find_n_le: "N \<le> 2 ^ k \<Longrightarrow> n \<le> k \<Longrightarrow> find_n n N \<le> k"
proof (induction n N rule: find_n.induct)
  case (1 n N)
  show ?case
  proof (cases "2 ^ n < N")
    case True
    have "n \<noteq> k"
    proof
      assume "n = k"
      with True 1(2) show False by simp
    qed
    with 1(3) have "Suc n \<le> k" by simp
    from 1(1) [OF True 1(2) this] True show ?thesis by (subst find_n.simps) simp
  next
    case False
    with 1(3) show ?thesis by (subst find_n.simps) simp
  qed
qed

lemma find_n_small: "N \<le> 1024 \<Longrightarrow> 3 * find_n 0 N < 31"
proof -
  assume "N \<le> 1024"
  then have "N \<le> 2 ^ 10" by simp
  then have "find_n 0 N \<le> 10" by (rule find_n_le) simp
  then show ?thesis by simp
qed

lemma measure_bits_nonneg:
  "for_each ps
       (\<lambda>i (t, st, gl).
          case measure_rnd i st gl of None \<Rightarrow> None
          | Some (d, st', gl') \<Rightarrow> Some (t OR push_bit (i - lo) (int d), st', gl'))
       (t0, st, gl) = Some (t, st', gl') \<Longrightarrow> 0 \<le> t0 \<Longrightarrow> 0 \<le> t"
proof (induction ps arbitrary: t0 st gl)
  case Nil
  then show ?case by simp
next
  case (Cons i ps)
  from Cons.prems(1) obtain d st1 gl1 where
    m: "measure_rnd i st gl = Some (d, st1, gl1)"
    by (cases "measure_rnd i st gl") auto
  with Cons.prems(1) have r: "for_each ps
       (\<lambda>i (t, st, gl).
          case measure_rnd i st gl of None \<Rightarrow> None
          | Some (d, st', gl') \<Rightarrow> Some (t OR push_bit (i - lo) (int d), st', gl'))
       (t0 OR push_bit (i - lo) (int d), st1, gl1) = Some (t, st', gl')"
    by simp
  have "0 \<le> t0 OR push_bit (i - lo) (int d)"
    using Cons.prems(2) by simp
  with r show ?case by (rule Cons.IH)
qed

lemma fold_cf_nonneg:
  "0 \<le> x \<Longrightarrow> 0 \<le> y \<Longrightarrow> \<forall>f\<in>set fs. 0 \<le> f \<Longrightarrow>
     0 \<le> fst (fold (\<lambda>f (x, y). (y + f * x, x)) fs (x, y :: int))"
proof (induction fs arbitrary: x y)
  case Nil
  then show ?case by simp
next
  case (Cons f fs)
  have "0 \<le> y + f * x" using Cons.prems by simp
  from Cons.IH [OF this Cons.prems(1)] Cons.prems(3) show ?case by simp
qed

lemma cf_candidate_nonneg:
  assumes "\<forall>f\<in>set fracs. 0 \<le> f" "0 \<le> z"
  shows "0 \<le> cf_candidate (fracs @ [z])"
  unfolding cf_candidate_def using assms
  by (simp add: fold_cf_nonneg)

lemma power_ll_total: "0 \<le> b \<Longrightarrow> n \<noteq> 0 \<Longrightarrow> \<exists>y. power_ll x b n = Some y"
  unfolding power_ll_def by (rule power_loop_total)

lemma cf_search_total:
  "0 < N \<Longrightarrow> 0 \<le> p \<Longrightarrow> 0 \<le> q \<Longrightarrow> \<forall>f\<in>set fracs. 0 \<le> f \<Longrightarrow>
     \<exists>r. cf_search a N p q fracs = Some r"
proof (induction a N p q fracs rule: cf_search.induct)
  case (1 a N p q fracs)
  show ?case
  proof (cases "q = 0")
    case True
    then show ?thesis by (subst cf_search.simps) simp
  next
    case False
    with 1(5) have q: "0 < q" by simp
    let ?f = "fracs @ [p sdiv q]"
    let ?x = "cf_candidate ?f"
    have d: "0 \<le> p sdiv q" using 1(4) q by (simp add: sdiv_nonneg pos_imp_zdiv_nonneg_iff)
    have r: "0 \<le> p smod q" using 1(4) q by (simp add: smod_nonneg)
    have fs: "\<forall>f\<in>set ?f. 0 \<le> f" using 1(6) d by simp
    have x0: "0 \<le> ?x" using 1(6) d by (rule cf_candidate_nonneg)
    have unfold: "cf_search a N p q fracs =
       (if ?x \<ge> N then Some Exhausted
        else if ?x \<noteq> 0
        then (case power_ll a ?x N of None \<Rightarrow> None
              | Some pw \<Rightarrow> if pw = 1 then Some (Found ?x) else cf_search a N q (p smod q) ?f)
        else cf_search a N q (p smod q) ?f)"
      using False by (subst cf_search.simps) (simp add: Let_def)
    show ?thesis
    proof (cases "?x \<ge> N")
      case True
      with unfold show ?thesis by simp
    next
      case ge: False
      show ?thesis
      proof (cases "?x = 0")
        case True
        then have nn: "\<not> ?x \<noteq> 0" by simp
        from 1(2) [OF False refl refl ge nn 1(3) 1(5) r fs] unfold ge True
        show ?thesis by simp
      next
        case nz: False
        from 1(3) have "N \<noteq> 0" by simp
        from power_ll_total [OF x0 this, of a] obtain pw where
          pw: "power_ll a ?x N = Some pw" by blast
        show ?thesis
        proof (cases "pw = 1")
          case True
          with unfold ge nz pw show ?thesis by simp
        next
          case False
          from 1(1) [OF \<open>q \<noteq> 0\<close> refl refl ge nz pw False 1(3) 1(5) r fs] unfold ge nz pw False
          show ?thesis by simp
        qed
      qed
    qed
  qed
qed

lemma attempt_total:
  assumes N: "2 \<le> N" and small: "3 * find_n 0 N < 31" and rev0: "rev_g gl 0 = 0"
  shows "\<exists>r gl'. attempt a N gl = Some (r, gl') \<and> rev_g gl' 0 = 0"
proof -
  define n where "n = find_n 0 N"
  define m where "m = 2 * n"
  have N0: "0 < N" using N by simp
  have Nn: "N \<le> 2 ^ n" unfolding n_def by (rule find_n_ge)
  have sm: "3 * n < 31" using small n_def by simp
  from prepare_graph [OF N small] obtain st2 where
    p: "shor_prepare N = Some st2" and wf2: "wf_state st2" and q2: "qn st2 = 3 * n"
    and u2: "normsq (qa st2) = 1" and s2: "second_reg_below (2 * n) N (qa st2)"
    and g2: "low_determines (2 * n) (qa st2)"
    unfolding n_def by blast
  have len2: "length (qa st2) = 2 ^ (3 * n)" using wf2 q2 by (simp add: wf_state_def)
  from mul_loop [OF q2 len2 N0 Nn sm s2 g2, of m a] obtain st3 where
    r3: "for_each [0..<m] (\<lambda>i st. mul st i a N) st2 = Some st3" and wf3: "wf_state st3"
    and q3: "qn st3 = 3 * n" and u3': "normsq (qa st3) = normsq (qa st2)"
    and s3: "second_reg_below (2 * n) N (qa st3)"
    by blast
  have u3: "normsq (qa st3) = 1" using u3' u2 by simp
  from measured_second [OF wf3 q3 u3 s3, of gl] obtain t st4 gl1 where
    r4: "measure_bits [m..<m + n] m st3 gl = Some (t, st4, gl1)"
    and wf4: "wf_state st4" and q4: "qn st4 = 3 * n" and t: "0 \<le> t" "t < N" "nat t < 2 ^ n"
    and rv1: "rev_g gl1 = rev_g gl"
    unfolding m_def by blast
  have lm: "(2::nat) ^ (2 * n) \<le> maxs" using lim_maxs [OF sm] by simp
  from rev_fill_result [OF lm, of gl1] rv1 rev0 obtain gl2 where
    r5: "rev_fill m gl1 = Some gl2" and rv2: "\<forall>i<2 ^ (2 * n). rev_g gl2 i < 2 ^ (2 * n)"
    and z2: "rev_g gl2 0 = 0"
    unfolding m_def by auto
  from QFT_total [OF wf4 q4 t(3) sm rv2] obtain st5 gl3 where
    r6: "QFT st4 m (nat t) gl2 = Some (st5, gl3)" and wf5: "wf_state st5"
    and rv3: "rev_g gl3 = rev_g gl2"
    unfolding m_def by blast
  from measure_bits_prefix [OF wf5, of 0 m gl3] obtain aux st6 gl4 where
    r7: "measure_bits [0..<m] 0 st5 gl3 = Some (aux, st6, gl4)"
    and rv4: "rev_g gl4 = rev_g gl3"
    by auto
  from r7 have "0 \<le> aux"
    unfolding measure_bits_def by (rule measure_bits_nonneg) simp
  from cf_search_total [OF N0 this, of "2 ^ m" "[]" a] obtain r where
    r8: "cf_search a N aux (2 ^ m) [] = Some r" by auto
  have "attempt a N gl = Some (r, gl4)"
    unfolding attempt_def Let_def n_def [symmetric] m_def [symmetric]
    by (simp add: p r3 r4 r5 r6 r7 r8)
  moreover have "rev_g gl4 0 = 0" using rv4 rv3 z2 by simp
  ultimately show ?thesis by blast
qed

lemma attempts_total:
  assumes N: "2 \<le> N" and small: "3 * find_n 0 N < 31"
  shows "rev_g gl 0 = 0 \<Longrightarrow> \<exists>r gl'. attempts K a N gl = Some (r, gl') \<and> rev_g gl' 0 = 0"
proof (induction K arbitrary: gl)
  case 0
  then show ?case by simp
next
  case (Suc K)
  from attempt_total [OF N small Suc.prems, of a] obtain c g1 where
    at: "attempt a N gl = Some (c, g1)" and z: "rev_g g1 0 = 0" by blast
  show ?case
  proof (cases c)
    case (Found x)
    with at z show ?thesis by simp
  next
    case Exhausted
    from Suc.IH [OF z] obtain r gl' where "attempts K a N g1 = Some (r, gl')" "rev_g gl' 0 = 0"
      by blast
    with at Exhausted show ?thesis by simp
  qed
qed

lemma shor_quantum_part_total:
  assumes "2 \<le> N" and "N \<le> 1024" and "rev_g gl 0 = 0"
  shows "\<exists>r gl'. shor_quantum_part a N gl = Some (r, gl') \<and> rev_g gl' 0 = 0"
  unfolding shor_quantum_part_def
  using assms(1) find_n_small [OF assms(2)] assms(3) by (rule attempts_total)

text \<open>
  C9, as amended.  For \<open>2 \<le> n < 2 ^ 63\<close> one pass of the loop of \<open>factor\<close> computes the
  base \<open>a = rnd() % (n - 1) + 1\<close>, a value of \<open>[1, n - 1]\<close>, from the next value of the engine;
  if \<open>gcd(n, a) > 1\<close> it ends with that factor and its cofactor, and the quantum part is not
  called; otherwise it calls \<open>shor_quantum_part\<close> and starts over with the globals that call
  left, and so with the next value of the engine, exactly when the period returned is \<open>0\<close>
  or odd, without any count of the passes made.  \<open>shor_quantum_part\<close> returns \<open>0\<close> only
  after 10 attempts that all ended without a period, and a period \<open>r\<close> from one of at most
  10 attempts; for \<open>n \<le> 1024\<close> (a state of at most 30 qubits) and \<open>rev[0] = 0\<close>, as in every
  run, it does return.
\<close>

theorem factor_outer_loop:
  assumes "2 \<le> n" and "n < 2 ^ 63"
    and "a = drawn_base n (fst (rnd gl))" and "gl1 = snd (rnd gl)"
  shows "a = int (unat (fst (rnd gl)) mod nat (n - 1)) + 1 \<and> 1 \<le> a \<and> a \<le> n - 1 \<and>
     (1 < gcd n a \<longrightarrow> factor n gl = Some (gcd n a, n div gcd n a)) \<and>
     (gcd n a = 1 \<longrightarrow>
        (shor_quantum_part a n gl1 = None \<longrightarrow> factor n gl = None) \<and>
        (\<forall>r gl2. shor_quantum_part a n gl1 = Some (r, gl2) \<longrightarrow>
           (r = 0 \<or> odd r \<longrightarrow> factor n gl = factor n gl2) \<and>
           (r \<noteq> 0 \<and> even r \<longrightarrow> factor n gl = post_process a r n) \<and>
           (r = 0 \<longrightarrow> after_attempts 10 a n gl1 = Some gl2) \<and>
           (r \<noteq> 0 \<longrightarrow> (\<exists>k<10. \<exists>glk. after_attempts k a n gl1 = Some glk \<and>
                      attempt a n glk = Some (Found r, gl2)))) \<and>
        (n \<le> 1024 \<and> rev_g gl 0 = 0 \<longrightarrow>
           (\<exists>r gl2. shor_quantum_part a n gl1 = Some (r, gl2) \<and> rev_g gl2 0 = 0)))"
proof -
  have a: "a = int (unat (fst (rnd gl)) mod nat (n - 1)) + 1"
    using drawn_base_eq [OF assms(1,2)] assms(3) by simp
  have lo: "1 \<le> a" using a by simp
  have "int (unat (fst (rnd gl)) mod nat (n - 1)) < int (nat (n - 1))"
    using assms(1) by (simp only: of_nat_less_iff) simp
  then have hi: "a \<le> n - 1" using assms(1) a by simp
  note u = factor_unfold [OF assms(1,2) a assms(4)]
  have g1: "factor n gl = Some (gcd n a, n div gcd n a)" if "1 < gcd n a"
    using u that by simp
  have g2: "factor n gl = None" if "gcd n a = 1" "shor_quantum_part a n gl1 = None"
    using u that by simp
  have g3: "(r = 0 \<or> odd r \<longrightarrow> factor n gl = factor n gl2) \<and>
           (r \<noteq> 0 \<and> even r \<longrightarrow> factor n gl = post_process a r n) \<and>
           (r = 0 \<longrightarrow> after_attempts 10 a n gl1 = Some gl2) \<and>
           (r \<noteq> 0 \<longrightarrow> (\<exists>k<10. \<exists>glk. after_attempts k a n gl1 = Some glk \<and>
                      attempt a n glk = Some (Found r, gl2)))"
    if "gcd n a = 1" "shor_quantum_part a n gl1 = Some (r, gl2)" for r gl2
  proof -
    from that(2) have "attempts 10 a n gl1 = Some (r, gl2)"
      by (simp add: shor_quantum_part_def)
    from attempts_result [OF this] have
      "(r = 0 \<longrightarrow> after_attempts 10 a n gl1 = Some gl2) \<and>
       (r \<noteq> 0 \<longrightarrow> (\<exists>k<10. \<exists>glk. after_attempts k a n gl1 = Some glk \<and>
                      attempt a n glk = Some (Found r, gl2)))" .
    moreover have "r = 0 \<or> odd r \<longrightarrow> factor n gl = factor n gl2"
      using u that by simp
    moreover have "r \<noteq> 0 \<and> even r \<longrightarrow> factor n gl = post_process a r n"
      using u that by simp
    ultimately show ?thesis by blast
  qed
  have g4: "\<exists>r gl2. shor_quantum_part a n gl1 = Some (r, gl2) \<and> rev_g gl2 0 = 0"
    if "n \<le> 1024" "rev_g gl 0 = 0"
  proof -
    have "rev_g gl1 0 = 0" using that(2) assms(4) by (simp add: rnd_def)
    with assms(1) that(1) show ?thesis by (rule shor_quantum_part_total)
  qed
  show ?thesis
  proof (intro conjI impI allI)
    show "a = int (unat (fst (rnd gl)) mod nat (n - 1)) + 1" by (fact a)
    show "1 \<le> a" by (fact lo)
    show "a \<le> n - 1" by (fact hi)
    show "factor n gl = Some (gcd n a, n div gcd n a)" if "1 < gcd n a"
      using that by (rule g1)
    show "factor n gl = None" if "gcd n a = 1" "shor_quantum_part a n gl1 = None"
      using that by (rule g2)
    show "factor n gl = factor n gl2"
      if "gcd n a = 1" "shor_quantum_part a n gl1 = Some (r, gl2)" "r = 0 \<or> odd r" for r gl2
      using g3 [OF that(1,2)] that(3) by blast
    show "factor n gl = post_process a r n"
      if "gcd n a = 1" "shor_quantum_part a n gl1 = Some (r, gl2)" "r \<noteq> 0 \<and> even r" for r gl2
      using g3 [OF that(1,2)] that(3) by blast
    show "after_attempts 10 a n gl1 = Some gl2"
      if "gcd n a = 1" "shor_quantum_part a n gl1 = Some (r, gl2)" "r = 0" for r gl2
      using g3 [OF that(1,2)] that(3) by blast
    show "\<exists>k<10. \<exists>glk. after_attempts k a n gl1 = Some glk \<and>
                      attempt a n glk = Some (Found r, gl2)"
      if "gcd n a = 1" "shor_quantum_part a n gl1 = Some (r, gl2)" "r \<noteq> 0" for r gl2
      using g3 [OF that(1,2)] that(3) by blast
    show "\<exists>r gl2. shor_quantum_part a n gl1 = Some (r, gl2) \<and> rev_g gl2 0 = 0"
      if "gcd n a = 1" "n \<le> 1024 \<and> rev_g gl 0 = 0"
      using that(2) g4 by blast
  qed
qed

theorem factor_outer_loop_witness:
  "(2::int) \<le> 15 \<and> (15::int) < 2 ^ 63 \<and>
   (2::int) = drawn_base 15 (fst (rnd (globals_start (\<lambda>_. 1)))) \<and>
   snd (rnd (globals_start (\<lambda>_. 1))) = snd (rnd (globals_start (\<lambda>_. 1))) \<and>
   gcd (15::int) 2 = 1 \<and> (15::int) \<le> 1024 \<and> rev_g (globals_start (\<lambda>_. 1)) 0 = 0 \<and>
   (\<exists>r gl2. shor_quantum_part 2 15 (snd (rnd (globals_start (\<lambda>_. 1)))) = Some (r, gl2) \<and>
      rev_g gl2 0 = 0 \<and>
      factor 15 (globals_start (\<lambda>_. 1)) =
        (if r = 0 \<or> odd r then factor 15 gl2 else post_process 2 r 15)) \<and>
   (3::int) = drawn_base 15 (fst (rnd (globals_start (\<lambda>_. 2)))) \<and>
   (1::int) < gcd 15 3 \<and>
   factor 15 (globals_start (\<lambda>_. 2)) = Some (gcd 15 3, 15 div gcd 15 3)"
proof -
  let ?G = "globals_start (\<lambda>_. 1)"
  let ?G2 = "globals_start (\<lambda>_. 2)"
  have h1: "(2::int) \<le> 15" by simp
  have h2: "(15::int) < 2 ^ 63" by simp
  have h3: "(2::int) = drawn_base 15 (fst (rnd ?G))"
    by (simp add: drawn_base_15 rnd_def globals_start_def)
  have h4: "snd (rnd ?G) = snd (rnd ?G)" by simp
  have h5: "gcd (15::int) 2 = 1" by (simp add: gcd_non_0_int)
  have h6: "(15::int) \<le> 1024" by simp
  have h7: "rev_g ?G 0 = 0" by (simp add: globals_start_def)
  have k3: "(3::int) = drawn_base 15 (fst (rnd ?G2))"
    by (simp add: drawn_base_15 rnd_def globals_start_def)
  have k4: "snd (rnd ?G2) = snd (rnd ?G2)" by simp
  have k5: "(1::int) < gcd 15 3" by (simp add: gcd_non_0_int)
  note w1 = factor_outer_loop [OF h1 h2 h3 h4]
  note w2 = factor_outer_loop [OF h1 h2 k3 k4]
  from w1 h5 h6 h7 obtain r gl2 where
    q: "shor_quantum_part 2 15 (snd (rnd ?G)) = Some (r, gl2)" "rev_g gl2 0 = 0"
    by blast
  from w1 h5 q(1) have "(r = 0 \<or> odd r \<longrightarrow> factor 15 ?G = factor 15 gl2) \<and>
           (r \<noteq> 0 \<and> even r \<longrightarrow> factor 15 ?G = post_process 2 r 15)"
    by blast
  then have f: "factor 15 ?G = (if r = 0 \<or> odd r then factor 15 gl2 else post_process 2 r 15)"
    by auto
  from w2 k5 have f2: "factor 15 ?G2 = Some (gcd 15 3, 15 div gcd 15 3)" by blast
  show ?thesis
    apply (intro conjI)
    apply (rule h1, rule h2, rule h3, rule h4, rule h5, rule h6, rule h7)
    apply (rule exI [of _ r], rule exI [of _ gl2])
    apply (intro conjI)
    apply (rule q(1), rule q(2), rule f)
    apply (rule k3, rule k5, rule f2)
    done
qed


subsection \<open>The support of the state at every point of an attempt\<close>




end
